theory Spec2Isabelle
  imports Main "HOL-Library.Multiset"
begin

section \<open>JavaScript strings\<close>

text \<open>
  A string is the list of the bytes of its UTF-8 form. The source only ever splits and
  tests on ASCII characters (\<open>#\<close>, \<open>?\<close>, \<open>/\<close>, \<open>&\<close>, \<open>=\<close>), each of which is one
  byte here and one code unit in JavaScript, so both views agree on every operation
  modelled here.
\<close>

text \<open>\<^verbatim>\<open>s || d\<close> on strings: the empty string is falsy.\<close>

definition or_else :: "string \<Rightarrow> string \<Rightarrow> string" where
  "or_else s d = (if s = [] then d else s)"

definition startsWith :: "string \<Rightarrow> string \<Rightarrow> bool" where
  "startsWith s p = (take (length p) s = p)"

text \<open>\<^verbatim>\<open>s.split(c)\<close> for a one-character separator: never the empty list.\<close>

fun split :: "char \<Rightarrow> string \<Rightarrow> string list" where
  "split c [] = [[]]"
| "split c (x # xs) =
     (if x = c then [] # split c xs
      else (case split c xs of [] \<Rightarrow> [[x]] | p # ps \<Rightarrow> (x # p) # ps))"

section \<open>The platform's query-string parser\<close>

text \<open>
  \<^verbatim>\<open>new URLSearchParams(q)\<close> followed by \<^verbatim>\<open>forEach\<close>: the URL standard's
  urlencoded parser. A leading \<open>?\<close> is dropped, the text is cut at \<open>&\<close>, empty
  pieces are skipped, each piece is cut at its first \<open>=\<close>, \<open>+\<close> becomes a
  space, \<open>%XY\<close> becomes the byte \<open>XY\<close>, and the bytes are decoded as UTF-8, every
  ill-formed sequence giving way to U+FFFD.
\<close>

definition hex_val :: "char \<Rightarrow> nat option" where
  "hex_val c =
     (let n = (of_char c :: nat) in
      if 48 \<le> n \<and> n \<le> 57 then Some (n - 48)
      else if 65 \<le> n \<and> n \<le> 70 then Some (n - 55)
      else if 97 \<le> n \<and> n \<le> 102 then Some (n - 87)
      else None)"

fun percent_decode :: "string \<Rightarrow> string" where
  "percent_decode [] = []"
| "percent_decode [c] = [c]"
| "percent_decode [c, d] = [c, d]"
| "percent_decode (c # a # b # rest) =
     (if c = CHR ''%'' then
        (case (hex_val a, hex_val b) of
           (Some x, Some y) \<Rightarrow> char_of (16 * x + y) # percent_decode rest
         | _ \<Rightarrow> c # percent_decode (a # b # rest))
      else c # percent_decode (a # b # rest))"

text \<open>
  The UTF-8 decoder of the Encoding standard, from bytes to the UTF-8 form of what it
  decodes: a well-formed sequence is kept, an ill-formed one is replaced. The state is
  the number of continuation bytes still needed, the bounds for the next one and the
  bytes of the sequence seen so far; a byte that cannot continue a sequence ends it
  with a replacement and is read again as a first byte.
\<close>

definition replacement :: string where
  "replacement = [CHR 0xEF, CHR 0xBF, CHR 0xBD]"

fun utf8_decode :: "nat \<Rightarrow> nat \<Rightarrow> nat \<Rightarrow> string \<Rightarrow> string \<Rightarrow> string" where
  "utf8_decode needed lower upper seen [] = (if needed = 0 then [] else replacement)"
| "utf8_decode needed lower upper seen (c # cs) =
     (let b = (of_char c :: nat) in
      if needed \<noteq> 0 \<and> lower \<le> b \<and> b \<le> upper then
        (if needed = 1 then seen @ [c] @ utf8_decode 0 0x80 0xBF [] cs
         else utf8_decode (needed - 1) 0x80 0xBF (seen @ [c]) cs)
      else
        (if needed \<noteq> 0 then replacement else []) @
        (if b \<le> 0x7F then c # utf8_decode 0 0x80 0xBF [] cs
         else if 0xC2 \<le> b \<and> b \<le> 0xDF then utf8_decode 1 0x80 0xBF [c] cs
         else if 0xE0 \<le> b \<and> b \<le> 0xEF then
           utf8_decode 2 (if b = 0xE0 then 0xA0 else 0x80) (if b = 0xED then 0x9F else 0xBF) [c] cs
         else if 0xF0 \<le> b \<and> b \<le> 0xF4 then
           utf8_decode 3 (if b = 0xF0 then 0x90 else 0x80) (if b = 0xF4 then 0x8F else 0xBF) [c] cs
         else replacement @ utf8_decode 0 0x80 0xBF [] cs))"

definition utf8 :: "string \<Rightarrow> string" where
  "utf8 bytes = utf8_decode 0 0x80 0xBF [] bytes"

definition plus_to_space :: "string \<Rightarrow> string" where
  "plus_to_space s = map (\<lambda>c. if c = CHR ''+'' then CHR '' '' else c) s"

definition url_pair :: "string \<Rightarrow> string \<times> string" where
  "url_pair piece =
     (let name = takeWhile (\<lambda>c. c \<noteq> CHR ''='') piece;
          val = drop 1 (dropWhile (\<lambda>c. c \<noteq> CHR ''='') piece)
      in (utf8 (percent_decode (plus_to_space name)), utf8 (percent_decode (plus_to_space val))))"

definition urlSearchParams :: "string \<Rightarrow> (string \<times> string) list" where
  "urlSearchParams q =
     (let body = (if startsWith q ''?'' then drop 1 q else q)
      in map url_pair (filter (\<lambda>piece. piece \<noteq> []) (split (CHR ''&'') body)))"

section \<open>The router: \<^verbatim>\<open>parseRoute\<close>\<close>

record route =
  hash :: string
  path :: string
  segments :: "string list"
  params :: "string \<rightharpoonup> string"

text \<open>
  \<^verbatim>\<open>params[key] = value\<close> on a plain object: the value becomes an own property,
  except under the key \<open>__proto__\<close>, where the inherited setter ignores a string.
\<close>

definition put_own :: "string \<Rightarrow> string \<Rightarrow> (string \<rightharpoonup> string) \<Rightarrow> (string \<rightharpoonup> string)" where
  "put_own key val ps = (if key = ''__proto__'' then ps else ps(key \<mapsto> val))"

text \<open>
  \<^verbatim>\<open>const [pathPartRaw, queryPart = ''] = withoutHash.split('?', 2)\<close>: the limit keeps
  the first two pieces and drops the rest. A missing first piece would be
  \<^verbatim>\<open>undefined\<close>, which \<^verbatim>\<open>|| '/'\<close> treats like the empty string.
\<close>

definition parseRoute :: "string \<Rightarrow> route" where
  "parseRoute rawHash =
     (let hash = or_else rawHash ''#/'';
          withoutHash = (if startsWith hash ''#'' then drop 1 hash else hash);
          parts = take 2 (split (CHR ''?'') withoutHash);
          pathPartRaw = (case parts of [] \<Rightarrow> [] | p # _ \<Rightarrow> p);
          queryPart = (case parts of _ # q # _ \<Rightarrow> q | _ \<Rightarrow> []);
          pathPart = or_else pathPartRaw ''/'';
          path = (if startsWith pathPart ''/'' \<or> pathPart = []
                  then or_else pathPart ''/'' else ''/'' @ pathPart);
          segments = filter (\<lambda>seg. length seg > 0) (split (CHR ''/'') path);
          params = (if queryPart \<noteq> []
                    then fold (\<lambda>(key, val) ps. put_own key val ps)
                           (urlSearchParams queryPart) Map.empty
                    else Map.empty)
      in \<lparr>hash = hash, path = path, segments = segments, params = params\<rparr>)"

section \<open>Stream operators\<close>

text \<open>
  \<^verbatim>\<open>distinctUntilChanged(cmp)\<close> keeps the last value it let through (none before the
  first) and drops a value that \<open>cmp\<close> equates with it.
\<close>

definition passes :: "('a \<Rightarrow> 'a \<Rightarrow> bool) \<Rightarrow> 'a option \<Rightarrow> 'a \<Rightarrow> bool" where
  "passes cmp prev x = (case prev of None \<Rightarrow> True | Some p \<Rightarrow> \<not> cmp p x)"

section \<open>JavaScript values carried by the sink streams\<close>

text \<open>
  \<^verbatim>\<open>TextLike = string | number | null | undefined\<close>, booleans for the disabled
  flag, and string arrays for class lists. A number other than \<open>NaN\<close> is known by
  the decimal form \<^verbatim>\<open>String\<close> gives it: two numbers are \<open>===\<close> exactly when
  their forms are equal (\<open>0\<close> and \<open>-0\<close> share the form \<open>0\<close>), and a number is
  falsy exactly when its form is \<open>0\<close>. An array is an object: it carries its
  identity next to its contents.
\<close>

datatype jsval = Undefined | Null | Str string | Num string | NaN | Bool bool | Arr nat "string list"

text \<open>
  \<^verbatim>\<open>a === b\<close>, the comparison \<^verbatim>\<open>distinctUntilChanged()\<close> makes: arrays are equal
  when they are the same object, \<open>NaN\<close> equals nothing.
\<close>

definition strict_eq :: "jsval \<Rightarrow> jsval \<Rightarrow> bool" where
  "strict_eq a b =
     (case (a, b) of
        (Arr i _, Arr j _) \<Rightarrow> i = j
      | (NaN, _) \<Rightarrow> False
      | (_, NaN) \<Rightarrow> False
      | _ \<Rightarrow> a = b)"

text \<open>\<^verbatim>\<open>xs.join(sep)\<close>\<close>

fun join :: "string \<Rightarrow> string list \<Rightarrow> string" where
  "join sep [] = []"
| "join sep [x] = x"
| "join sep (x # y # ys) = x @ sep @ join sep (y # ys)"

text \<open>\<^verbatim>\<open>String(v)\<close>\<close>

fun js_String :: "jsval \<Rightarrow> string" where
  "js_String Undefined = ''undefined''"
| "js_String Null = ''null''"
| "js_String (Str s) = s"
| "js_String (Num form) = form"
| "js_String NaN = ''NaN''"
| "js_String (Bool b) = (if b then ''true'' else ''false'')"
| "js_String (Arr i xs) = join '','' xs"

text \<open>\<^verbatim>\<open>v == null\<close>, the test behind \<^verbatim>\<open>v ?? d\<close> and \<^verbatim>\<open>v?.toString()\<close>\<close>

fun nullish :: "jsval \<Rightarrow> bool" where
  "nullish Undefined = True"
| "nullish Null = True"
| "nullish _ = False"

text \<open>\<^verbatim>\<open>Boolean(v)\<close>\<close>

fun js_Boolean :: "jsval \<Rightarrow> bool" where
  "js_Boolean Undefined = False"
| "js_Boolean Null = False"
| "js_Boolean (Str s) = (s \<noteq> [])"
| "js_Boolean (Num form) = (form \<noteq> ''0'')"
| "js_Boolean NaN = False"
| "js_Boolean (Bool b) = b"
| "js_Boolean (Arr i xs) = True"

section \<open>The DOM the binding engine writes to\<close>

text \<open>
  The page is an HTML document. An element is known by its kind and by what the sinks
  can set on it. No script of the page reacts to what a sink writes: there is no
  custom element reaction and no mutation observer.

  The kinds are the ones the source and the platform tell apart. An \<^verbatim>\<open><input>\<close>
  carries the mode of its \<^verbatim>\<open>value\<close> property, which its type decides: the value
  mode with the sanitization of the type (text, number, range and so on), the default
  mode, where \<^verbatim>\<open>value\<close> reflects the content attribute (hidden, submit, checkbox and
  so on), or the filename mode of a file input. \<open>Button\<close> is a \<^verbatim>\<open><button>\<close>, whose
  \<^verbatim>\<open>value\<close> and \<^verbatim>\<open>disabled\<close> reflect content attributes. \<open>Div\<close> is an HTML
  element with no \<^verbatim>\<open>value\<close> and no \<^verbatim>\<open>disabled\<close> of its own (\<^verbatim>\<open><div>\<close>,
  \<^verbatim>\<open><span>\<close>, \<^verbatim>\<open><p>\<close>). \<open>Svg\<close> is an SVG element inside the HTML tree: not an
  \<^verbatim>\<open>HTMLElement\<close>, and its \<^verbatim>\<open>className\<close> has no setter.
\<close>

datatype input_mode = Value_mode "string \<Rightarrow> string" | Default_mode | Filename_mode

datatype tag = Input input_mode | Textarea | Select | Button | Div | Svg

text \<open>
  The children of an element are whatever the last write to \<^verbatim>\<open>textContent\<close> or
  \<^verbatim>\<open>innerHTML\<close> installed: both setters replace them, the first with one text node,
  the second with what the parser makes of the markup. \<open>value_prop\<close> is the value an
  assignment to \<^verbatim>\<open>value\<close> left in a form control, none while the control shows
  its default: what its attributes and children imply. \<open>attrs\<close> are the content attributes, \<open>own_props\<close> the properties
  an assignment created on the element object itself. \<open>writes\<close> counts the assignments
  and attribute calls made on the element.
\<close>

datatype content = Text string | Markup string

record element =
  tag :: tag
  children :: content
  value_prop :: "string option"
  attrs :: "string \<rightharpoonup> string"
  own_props :: "string \<rightharpoonup> jsval"
  writes :: nat

type_synonym elem = nat

type_synonym store = "elem \<Rightarrow> element"

text \<open>
  The options the platform finds in a \<^verbatim>\<open><select>\<close>: each the option element and its
  value, in tree order.
\<close>

type_synonym option_list = "(elem \<times> string) list"

text \<open>
  A setter returns the element as it leaves it and the exception it throws, if any.
\<close>

type_synonym 'a failing = "'a \<times> string option"

text \<open>
  \<^verbatim>\<open>el.textContent = s\<close> and \<^verbatim>\<open>el.innerHTML = s\<close>. On a \<^verbatim>\<open><select>\<close> the old
  options go with the old children and the selection with them: whatever value was
  assigned before, the control shows the default of its new children. The value
  assigned to a \<^verbatim>\<open><textarea>\<close> or an \<^verbatim>\<open><input>\<close> stays.
\<close>

definition set_textContent :: "string \<Rightarrow> element \<Rightarrow> element" where
  "set_textContent s e =
     e\<lparr>children := Text s, value_prop := (if tag e = Select then None else value_prop e),
       writes := Suc (writes e)\<rparr>"

definition set_innerHTML :: "string \<Rightarrow> element \<Rightarrow> element" where
  "set_innerHTML s e =
     e\<lparr>children := Markup s, value_prop := (if tag e = Select then None else value_prop e),
       writes := Suc (writes e)\<rparr>"

definition put_attr :: "string \<Rightarrow> string \<Rightarrow> element \<Rightarrow> element" where
  "put_attr k s e = e\<lparr>attrs := (attrs e)(k \<mapsto> s), writes := Suc (writes e)\<rparr>"

definition removeAttribute :: "string \<Rightarrow> element \<Rightarrow> element" where
  "removeAttribute k e = e\<lparr>attrs := (attrs e)(k := None), writes := Suc (writes e)\<rparr>"

definition put_prop :: "string \<Rightarrow> jsval \<Rightarrow> element \<Rightarrow> element" where
  "put_prop k v e = e\<lparr>own_props := (own_props e)(k \<mapsto> v), writes := Suc (writes e)\<rparr>"

text \<open>
  \<^verbatim>\<open>el.value = s\<close>. \<open>options\<close> are the options the element holds as the page
  stands, which matter to a \<^verbatim>\<open><select>\<close>: the assignment selects the first option
  of that value, and with no such option none is selected and the value reads back
  empty. An input in the value mode keeps the sanitized string; in the default
  mode, and on a button, the content attribute is set; a file input accepts only the
  empty string. On the other kinds the assignment creates a property of the object.
\<close>

definition set_value :: "string \<Rightarrow> option_list \<Rightarrow> element \<Rightarrow> element failing" where
  "set_value s options e =
     (case tag e of
        Input (Value_mode sanitize) \<Rightarrow>
          (e\<lparr>value_prop := Some (sanitize s), writes := Suc (writes e)\<rparr>, None)
      | Input Default_mode \<Rightarrow> (put_attr ''value'' s e, None)
      | Input Filename_mode \<Rightarrow>
          if s = [] then (e\<lparr>writes := Suc (writes e)\<rparr>, None) else (e, Some ''InvalidStateError'')
      | Textarea \<Rightarrow> (e\<lparr>value_prop := Some s, writes := Suc (writes e)\<rparr>, None)
      | Select \<Rightarrow>
          (e\<lparr>value_prop := Some (if s \<in> snd ` set options then s else []), writes := Suc (writes e)\<rparr>,
           None)
      | Button \<Rightarrow> (put_attr ''value'' s e, None)
      | _ \<Rightarrow> (put_prop ''value'' (Str s) e, None))"

text \<open>
  \<^verbatim>\<open>el.className = s\<close> reflects the \<open>class\<close> attribute; on an SVG element the
  property has only a getter and the assignment, made in strict code, is a
  \<^verbatim>\<open>TypeError\<close>.
\<close>

definition set_className :: "string \<Rightarrow> element \<Rightarrow> element failing" where
  "set_className s e =
     (if tag e = Svg then (e, Some ''TypeError'') else (put_attr ''class'' s e, None))"

text \<open>
  \<^verbatim>\<open>el.disabled = b\<close> reflects the boolean attribute on form controls and buttons;
  elsewhere it creates a property of the object.
\<close>

definition set_disabled :: "bool \<Rightarrow> element \<Rightarrow> element" where
  "set_disabled b e =
     (if tag e = Div \<or> tag e = Svg then put_prop ''disabled'' (Bool b) e
      else if b then put_attr ''disabled'' [] e
      else removeAttribute ''disabled'' e)"

text \<open>
  \<^verbatim>\<open>el.setAttribute(name, s)\<close>: the name is rejected with an
  \<^verbatim>\<open>InvalidCharacterError\<close> when it is empty or holds ASCII whitespace, NUL,
  \<open>/\<close>, \<open>=\<close> or \<open>>\<close>, and is lower-cased on an HTML element.
\<close>

definition valid_attr_name :: "string \<Rightarrow> bool" where
  "valid_attr_name k =
     (k \<noteq> [] \<and>
      list_all (\<lambda>c. (of_char c :: nat) \<notin> {0, 9, 10, 12, 13, 32, 47, 61, 62}) k)"

definition ascii_lower :: "char \<Rightarrow> char" where
  "ascii_lower c =
     (let n = (of_char c :: nat) in if 65 \<le> n \<and> n \<le> 90 then char_of (n + 32) else c)"

definition setAttribute :: "string \<Rightarrow> string \<Rightarrow> element \<Rightarrow> element failing" where
  "setAttribute k s e =
     (if valid_attr_name k
      then (put_attr (if tag e = Svg then k else map ascii_lower k) s e, None)
      else (e, Some ''InvalidCharacterError''))"

section \<open>Streams, subscriptions and the page\<close>

text \<open>
  The stream library is an external capability, taken as version 7 of RxJS behaves. A
  stream handed to the binding engine is known by the push source that feeds it and
  by what it delivers synchronously to a new subscriber (\<^verbatim>\<open>of(x)\<close>, the current
  value of a \<^verbatim>\<open>BehaviorSubject\<close>, the replayed model of the MVU loop). Later
  emissions arrive as events of the source and reach the subscriptions in the order
  they were made. Streams here only emit values: their completion and their failure
  are not part of the model.
\<close>

datatype observable = Observable (source: nat) (replay: "jsval list")

text \<open>
  What a sink does with a value on one element: it is given the value, the options
  the platform finds for the element, and the element.
\<close>

type_synonym handler = "jsval \<Rightarrow> option_list \<Rightarrow> element \<Rightarrow> element failing"

text \<open>
  The two shapes of sink subscription in the source. \<open>Tap\<close> is \<^verbatim>\<open>bindObservable\<close>'s
  \<^verbatim>\<open>stream$.pipe(distinctUntilChanged(), tap(...)).subscribe()\<close>: the selector (for the
  log line), the last value let through, the elements captured at setup and the
  handler. \<open>Assign\<close> is \<^verbatim>\<open>stream.subscribe((v) => { el.prop = ... })\<close> on one element.
\<close>

datatype observer =
    Tap string "jsval option" "elem list" handler
  | Assign elem handler

record sink =
  owner :: nat
  src :: nat
  observer :: observer

text \<open>
  The page: the elements; how the platform reads the options of an element off the
  elements as they stand; the console; the exceptions that escaped to the host
  (the stream library rethrows on a timer what a subscriber's callback threw); the
  live sink subscriptions in subscription order; the callbacks subscribed to the
  shared event streams and the native click listeners they keep registered (each with
  the \<^verbatim>\<open>Subscription\<close> and the event name it belongs to); and the number of
  \<^verbatim>\<open>Subscription\<close> objects made so far.
\<close>

record world =
  elems :: store
  options_of :: "store \<Rightarrow> elem \<Rightarrow> option_list"
  console :: "string list"
  uncaught :: "string list"
  sinks :: "sink list"
  callbacks :: "(nat \<times> string \<times> string) list"
  listeners :: "(nat \<times> string \<times> elem) list"
  handles :: nat

definition console_warn :: "string \<Rightarrow> world \<Rightarrow> world" where
  "console_warn line w = w\<lparr>console := console w @ [''warn: '' @ line]\<rparr>"

definition console_error :: "string \<Rightarrow> world \<Rightarrow> world" where
  "console_error line w = w\<lparr>console := console w @ [''error: '' @ line]\<rparr>"

definition report_unhandled :: "string \<Rightarrow> world \<Rightarrow> world" where
  "report_unhandled err w = w\<lparr>uncaught := uncaught w @ [err]\<rparr>"

text \<open>The handler applied to one element of the page.\<close>

definition apply_to :: "handler \<Rightarrow> jsval \<Rightarrow> elem \<Rightarrow> world \<Rightarrow> element failing" where
  "apply_to h v el w = h v (options_of w (elems w) el) (elems w el)"

text \<open>
  One turn of \<^verbatim>\<open>elements.forEach(el => { try { handler(el, value) } catch (error)
  { console.error(...) } })\<close>.
\<close>

definition try_handler :: "string \<Rightarrow> handler \<Rightarrow> jsval \<Rightarrow> elem \<Rightarrow> world \<Rightarrow> world" where
  "try_handler selector h v el w =
     (case apply_to h v el w of
        (e', None) \<Rightarrow> w\<lparr>elems := (elems w)(el := e')\<rparr>
      | (e', Some err) \<Rightarrow>
          console_error (''Error in binding handler for '' @ selector @ '': '' @ err)
            (w\<lparr>elems := (elems w)(el := e')\<rparr>))"

text \<open>
  The callback of an \<open>Assign\<close> subscription has no \<^verbatim>\<open>try\<close> around it: what it
  throws reaches the stream library, which keeps the subscription and hands the
  exception to the host.
\<close>

definition run_callback :: "handler \<Rightarrow> jsval \<Rightarrow> elem \<Rightarrow> world \<Rightarrow> world" where
  "run_callback f v el w =
     (case apply_to f v el w of
        (e', None) \<Rightarrow> w\<lparr>elems := (elems w)(el := e')\<rparr>
      | (e', Some err) \<Rightarrow> report_unhandled err (w\<lparr>elems := (elems w)(el := e')\<rparr>))"

text \<open>A value arrives at one subscription.\<close>

fun on_next :: "jsval \<Rightarrow> observer \<Rightarrow> world \<Rightarrow> observer \<times> world" where
  "on_next v (Tap selector prev elements h) w =
     (if passes strict_eq prev v
      then (Tap selector (Some v) elements h, fold (try_handler selector h v) elements w)
      else (Tap selector prev elements h, w))"
| "on_next v (Assign el f) w = (Assign el f, run_callback f v el w)"

text \<open>
  \<^verbatim>\<open>sub.add(stream.subscribe(...))\<close>: the new subscription receives what the stream
  replays, then joins the live subscriptions of \<^verbatim>\<open>Subscription\<close> \<open>h\<close>.
\<close>

definition subscribe :: "nat \<Rightarrow> observable \<Rightarrow> observer \<Rightarrow> world \<Rightarrow> world" where
  "subscribe h stream ob w =
     (let (ob', w') = fold (\<lambda>v (ob, w). on_next v ob w) (replay stream) (ob, w)
      in w'\<lparr>sinks := sinks w' @ [\<lparr>owner = h, src = source stream, observer = ob'\<rparr>]\<rparr>)"

text \<open>The source \<open>s\<close> emits \<open>v\<close>: every live subscription fed by it is served, in order.\<close>

fun emit_to :: "nat \<Rightarrow> jsval \<Rightarrow> sink list \<Rightarrow> world \<Rightarrow> sink list \<times> world" where
  "emit_to s v [] w = ([], w)"
| "emit_to s v (x # xs) w =
     (if src x = s
      then (let (ob', w') = on_next v (observer x) w;
                (xs', w'') = emit_to s v xs w'
            in (x\<lparr>observer := ob'\<rparr> # xs', w''))
      else (let (xs', w'') = emit_to s v xs w in (x # xs', w'')))"

definition emit :: "nat \<Rightarrow> jsval \<Rightarrow> world \<Rightarrow> world" where
  "emit s v w = (let (xs, w') = emit_to s v (sinks w) w in w'\<lparr>sinks := xs\<rparr>)"

text \<open>
  \<^verbatim>\<open>sub.unsubscribe()\<close>: every subscription added to \<open>h\<close> is closed; the shared event
  streams it was the subscriber of lose their last subscriber and take their native
  listeners off. A closed \<^verbatim>\<open>Subscription\<close> ignores further calls.
\<close>

definition unsubscribe :: "nat \<Rightarrow> world \<Rightarrow> world" where
  "unsubscribe h w =
     w\<lparr>sinks := filter (\<lambda>x. owner x \<noteq> h) (sinks w),
       callbacks := filter (\<lambda>(h', _, _). h' \<noteq> h) (callbacks w),
       listeners := filter (\<lambda>(h', _, _). h' \<noteq> h) (listeners w)\<rparr>"

section \<open>Errors and sequencing\<close>

datatype error = BindingError string | TypeError string | SyntaxError string

type_synonym 'a outcome = "(error + 'a) \<times> world"

text \<open>A loop whose body may throw: the first exception ends it, with the page as it is then.\<close>

fun forEach :: "('x \<Rightarrow> world \<Rightarrow> unit outcome) \<Rightarrow> 'x list \<Rightarrow> world \<Rightarrow> unit outcome" where
  "forEach f [] w = (Inr (), w)"
| "forEach f (x # xs) w =
     (case f x w of (Inl e, w') \<Rightarrow> (Inl e, w') | (Inr _, w') \<Rightarrow> forEach f xs w')"

section \<open>The element locator: \<^verbatim>\<open>qAll\<close>\<close>

text \<open>
  The root argument of \<^verbatim>\<open>bind\<close> as JavaScript sees it. An \<open>HTMLElement\<close> carries its
  \<^verbatim>\<open>querySelectorAll\<close>, which reads the page as it stands when it is called: the
  matching descendants in document order, or \<open>None\<close> when the selector is rejected.
\<close>

datatype root_arg =
    RNull
  | RUndefined
  | RObject
  | HTMLElement "store \<Rightarrow> string \<Rightarrow> elem list option"

definition qAll :: "root_arg \<Rightarrow> string \<Rightarrow> world \<Rightarrow> (elem list) outcome" where
  "qAll root selector w =
     (case root of
        HTMLElement querySelectorAll \<Rightarrow>
          (case querySelectorAll (elems w) selector of
             Some elements \<Rightarrow>
               (Inr elements,
                if length elements = 0
                then console_warn (''No elements found for selector: '' @ selector) w
                else w)
           | None \<Rightarrow> (Inl (BindingError (''Invalid selector: '' @ selector)), w))
      | _ \<Rightarrow> (Inl (BindingError ''Invalid root element''), w))"

section \<open>The event streams object\<close>

text \<open>
  \<^verbatim>\<open>events$\<close> is a plain object used as a table. A stream stored in it merges the
  click streams of some elements; it is \<open>broken\<close> when the first thing merged into it
  was not a stream, and then fails whoever subscribes before any element is listened
  to. Next to its own entries the object has its prototype: \<^verbatim>\<open>Object.prototype\<close>
  at first, and the stream that an assignment to the name \<open>__proto__\<close> put in its
  place.
\<close>

record ev_stream =
  broken :: bool
  sources :: "elem list"

record events_object =
  own :: "string \<rightharpoonup> ev_stream"
  proto :: "ev_stream option"

definition no_events :: events_object where
  "no_events = \<lparr>own = Map.empty, proto = None\<rparr>"

text \<open>
  The names every plain object inherits, and the ones a stream object brings when it
  is the prototype: of these \<open>source\<close> is itself a stream, which hands over the
  inputs of the merge and completes, and the others are functions.
\<close>

definition object_members :: "string list" where
  "object_members =
     [''constructor'', ''__defineGetter__'', ''__defineSetter__'', ''hasOwnProperty'',
      ''__lookupGetter__'', ''__lookupSetter__'', ''isPrototypeOf'', ''propertyIsEnumerable'',
      ''toString'', ''valueOf'', ''toLocaleString'']"

definition observable_members :: "string list" where
  "observable_members =
     [''operator'', ''lift'', ''subscribe'', ''_trySubscribe'', ''forEach'', ''_subscribe'',
      ''pipe'', ''toPromise'']"

text \<open>\<^verbatim>\<open>events$[name]\<close>: nothing, something truthy that is no stream, or a stream.\<close>

datatype looked_up = Absent | Not_a_stream | Found ev_stream

definition lookup :: "events_object \<Rightarrow> string \<Rightarrow> looked_up" where
  "lookup evs name =
     (case own evs name of
        Some s \<Rightarrow> Found s
      | None \<Rightarrow>
          if name = ''__proto__''
          then (case proto evs of None \<Rightarrow> Not_a_stream | Some m \<Rightarrow> Found m)
          else if name \<in> set object_members then Not_a_stream
          else (case proto evs of
                  None \<Rightarrow> Absent
                | Some m \<Rightarrow>
                    if name = ''source'' then Found \<lparr>broken = False, sources = []\<rparr>
                    else if name \<in> set observable_members then Not_a_stream
                    else Absent))"

text \<open>
  \<^verbatim>\<open>events$[name] = stream\<close>: an own entry, except under \<open>__proto__\<close>, where the
  inherited setter makes the stream the prototype.
\<close>

definition assign :: "string \<Rightarrow> ev_stream \<Rightarrow> events_object \<Rightarrow> events_object" where
  "assign name s evs =
     (if name = ''__proto__'' then evs\<lparr>proto := Some s\<rparr> else evs\<lparr>own := (own evs)(name \<mapsto> s)\<rparr>)"

text \<open>
  \<^verbatim>\<open>if (!events$[name]) events$[name] = streamForEl; else events$[name] =
  merge(events$[name], streamForEl)\<close>
\<close>

definition merge_in :: "looked_up \<Rightarrow> elem \<Rightarrow> ev_stream" where
  "merge_in found el =
     (case found of
        Absent \<Rightarrow> \<lparr>broken = False, sources = [el]\<rparr>
      | Not_a_stream \<Rightarrow> \<lparr>broken = True, sources = [el]\<rparr>
      | Found s \<Rightarrow> s\<lparr>sources := sources s @ [el]\<rparr>)"

text \<open>The loop over the \<open>data-on\<close> elements; an absent or empty \<open>data-on\<close> is skipped.\<close>

definition scan_sources :: "elem list \<Rightarrow> world \<Rightarrow> events_object" where
  "scan_sources onEls w =
     fold (\<lambda>el evs.
             case attrs (elems w el) ''data-on'' of
               None \<Rightarrow> evs
             | Some name \<Rightarrow>
                 if name = [] then evs else assign name (merge_in (lookup evs name) el) evs)
          onEls no_events"

text \<open>
  \<^verbatim>\<open>sub.add(stream.subscribe(handler))\<close> on a stream of the object. A broken stream
  fails the subscriber at once: the callback has no error handler, so the library
  hands the \<^verbatim>\<open>TypeError\<close> to the host and nothing stays subscribed. A stream with no
  element completes at once. Otherwise \<^verbatim>\<open>share()\<close> connects for its first
  subscriber, and connecting the merged \<^verbatim>\<open>fromEvent\<close> streams registers one native
  click listener on each element.
\<close>

definition subscribe_event :: "nat \<Rightarrow> string \<Rightarrow> ev_stream \<Rightarrow> string \<Rightarrow> world \<Rightarrow> world" where
  "subscribe_event sub name s cb w =
     (if broken s then report_unhandled ''TypeError'' w
      else if sources s = [] then w
      else w\<lparr>callbacks := callbacks w @ [(sub, name, cb)],
             listeners := listeners w @
               (if list_ex (\<lambda>(h, n, _). h = sub \<and> n = name) (callbacks w) then []
                else map (\<lambda>el. (sub, name, el)) (sources s))\<rparr>)"

text \<open>
  One turn of the loop over \<^verbatim>\<open>bindings.events\<close>: \<^verbatim>\<open>const stream = events$[name];
  if (stream) sub.add(stream.subscribe(handler))\<close>. What is truthy and no stream has no
  \<^verbatim>\<open>subscribe\<close>, and calling it is a \<^verbatim>\<open>TypeError\<close>.
\<close>

definition subscribe_callback ::
  "nat \<Rightarrow> events_object \<Rightarrow> string \<times> string \<Rightarrow> world \<Rightarrow> unit outcome" where
  "subscribe_callback sub evs entry w =
     (case entry of (name, cb) \<Rightarrow>
        (case lookup evs name of
           Absent \<Rightarrow> (Inr (), w)
         | Not_a_stream \<Rightarrow> (Inl (TypeError ''stream.subscribe is not a function''), w)
         | Found s \<Rightarrow> (Inr (), subscribe_event sub name s cb w)))"

section \<open>The binding engine: \<^verbatim>\<open>bind\<close>\<close>

text \<open>
  The binding declaration. Each table lists its entries in \<^verbatim>\<open>Object.entries\<close> order.
  \<open>b_other\<close> holds the remaining keys of the object with their tables, whose values
  may or may not be streams; an event callback is known by its name.
\<close>

datatype slot = IsObservable observable | NotObservable

record bindings =
  b_text :: "(string \<times> observable) list option"
  b_value :: "(string \<times> observable) list option"
  b_html :: "(string \<times> observable) list option"
  b_className :: "(string \<times> observable) list option"
  b_disabled :: "(string \<times> observable) list option"
  b_events :: "(string \<times> string) list option"
  b_other :: "(string \<times> (string \<times> slot) list) list"

text \<open>What \<^verbatim>\<open>bind\<close> returns: the \<^verbatim>\<open>Subscription\<close> and the event streams object.\<close>

record binding_result =
  subscription :: nat
  events :: events_object

text \<open>\<^verbatim>\<open>bindObservable(selector, stream$, handler)\<close>\<close>

definition bindObservable ::
  "root_arg \<Rightarrow> nat \<Rightarrow> string \<Rightarrow> observable \<Rightarrow> handler \<Rightarrow> world \<Rightarrow> unit outcome" where
  "bindObservable root sub selector stream h w =
     (case qAll root selector w of
        (Inl e, w') \<Rightarrow> (Inl e, w')
      | (Inr elements, w') \<Rightarrow>
          if length elements = 0 then (Inr (), w')
          else (Inr (), subscribe sub stream (Tap selector None elements h) w'))"

text \<open>\<^verbatim>\<open>defaultHandlers.text\<close>: \<^verbatim>\<open>el.textContent = value?.toString() ?? ''\<close>\<close>

definition text_handler :: handler where
  "text_handler v options e = (set_textContent (if nullish v then [] else js_String v) e, None)"

text \<open>
  The value handler of \<^verbatim>\<open>bind\<close>: only an input, textarea or select element is
  written, with \<^verbatim>\<open>value == null ? '' : String(value)\<close>.
\<close>

definition value_handler :: handler where
  "value_handler v options e =
     (case tag e of
        Input _ \<Rightarrow> set_value (if nullish v then [] else js_String v) options e
      | Textarea \<Rightarrow> set_value (if nullish v then [] else js_String v) options e
      | Select \<Rightarrow> set_value (if nullish v then [] else js_String v) options e
      | _ \<Rightarrow> (e, None))"

text \<open>The custom attribute handler: \<^verbatim>\<open>el.setAttribute(key, String(val))\<close>\<close>

definition data_handler :: "string \<Rightarrow> handler" where
  "data_handler key v options e = setAttribute key (js_String v) e"

text \<open>The three inline callbacks: markup, class list, disabled flag.\<close>

definition html_assign :: handler where
  "html_assign v options e = (set_innerHTML (if nullish v then [] else js_String v) e, None)"

definition className_assign :: handler where
  "className_assign v options e =
     set_className
       (case v of Arr i xs \<Rightarrow> join '' '' xs | _ \<Rightarrow> if nullish v then [] else js_String v) e"

definition disabled_assign :: handler where
  "disabled_assign v options e = (set_disabled (js_Boolean v) e, None)"

text \<open>The selector \<^verbatim>\<open>[data-html="name"]\<close> and its like.\<close>

definition attr_selector :: "string \<Rightarrow> string \<Rightarrow> string" where
  "attr_selector attr name = ''['' @ attr @ ''='' @ [CHR 0x22] @ name @ [CHR 0x22] @ '']''"

text \<open>
  One turn of the loops over \<^verbatim>\<open>bindings.html\<close>, \<^verbatim>\<open>bindings.className\<close> and
  \<^verbatim>\<open>bindings.disabled\<close>: every matched element gets a subscription of its own.
\<close>

definition bind_each ::
  "root_arg \<Rightarrow> nat \<Rightarrow> string \<Rightarrow> handler \<Rightarrow> string \<times> observable \<Rightarrow> world \<Rightarrow> unit outcome" where
  "bind_each root sub attr f entry w =
     (case entry of (name, stream) \<Rightarrow>
        (case qAll root (attr_selector attr name) w of
           (Inl e, w') \<Rightarrow> (Inl e, w')
         | (Inr els, w') \<Rightarrow>
             if length els = 0 then (Inr (), w')
             else (Inr (), fold (\<lambda>el. subscribe sub stream (Assign el f)) els w')))"

definition bind_text :: "root_arg \<Rightarrow> nat \<Rightarrow> bindings \<Rightarrow> world \<Rightarrow> unit outcome" where
  "bind_text root sub b w =
     (case b_text b of
        None \<Rightarrow> (Inr (), w)
      | Some entries \<Rightarrow>
          forEach (\<lambda>(selector, stream). bindObservable root sub selector stream text_handler)
            entries w)"

definition bind_value :: "root_arg \<Rightarrow> nat \<Rightarrow> bindings \<Rightarrow> world \<Rightarrow> unit outcome" where
  "bind_value root sub b w =
     (case b_value b of
        None \<Rightarrow> (Inr (), w)
      | Some entries \<Rightarrow>
          forEach (\<lambda>(selector, stream). bindObservable root sub selector stream value_handler)
            entries w)"

definition bind_html :: "root_arg \<Rightarrow> nat \<Rightarrow> bindings \<Rightarrow> world \<Rightarrow> unit outcome" where
  "bind_html root sub b w =
     (case b_html b of
        None \<Rightarrow> (Inr (), w)
      | Some entries \<Rightarrow> forEach (bind_each root sub ''data-html'' html_assign) entries w)"

definition bind_className :: "root_arg \<Rightarrow> nat \<Rightarrow> bindings \<Rightarrow> world \<Rightarrow> unit outcome" where
  "bind_className root sub b w =
     (case b_className b of
        None \<Rightarrow> (Inr (), w)
      | Some entries \<Rightarrow> forEach (bind_each root sub ''data-class'' className_assign) entries w)"

definition bind_disabled :: "root_arg \<Rightarrow> nat \<Rightarrow> bindings \<Rightarrow> world \<Rightarrow> unit outcome" where
  "bind_disabled root sub b w =
     (case b_disabled b of
        None \<Rightarrow> (Inr (), w)
      | Some entries \<Rightarrow> forEach (bind_each root sub ''data-disabled'' disabled_assign) entries w)"

text \<open>
  The loop over every key of the declaration: a key that starts with \<open>data-\<close> and
  holds a table has each of its streams bound to the attribute of that name.
\<close>

definition bind_data_entry ::
  "root_arg \<Rightarrow> nat \<Rightarrow> string \<Rightarrow> string \<times> slot \<Rightarrow> world \<Rightarrow> unit outcome" where
  "bind_data_entry root sub key entry w =
     (case entry of
        (selector, IsObservable stream) \<Rightarrow>
          bindObservable root sub selector stream (data_handler key) w
      | (selector, NotObservable) \<Rightarrow> (Inr (), w))"

definition bind_data_table ::
  "root_arg \<Rightarrow> nat \<Rightarrow> string \<times> (string \<times> slot) list \<Rightarrow> world \<Rightarrow> unit outcome" where
  "bind_data_table root sub item w =
     (case item of (key, table) \<Rightarrow>
        if startsWith key ''data-'' then forEach (bind_data_entry root sub key) table w
        else (Inr (), w))"

definition bind_data :: "root_arg \<Rightarrow> nat \<Rightarrow> bindings \<Rightarrow> world \<Rightarrow> unit outcome" where
  "bind_data root sub b w = forEach (bind_data_table root sub) (b_other b) w"

text \<open>
  The event part: the \<open>data-on\<close> elements are located and scanned into the streams
  object, then the declared callbacks are subscribed in turn.
\<close>

definition bind_events :: "root_arg \<Rightarrow> nat \<Rightarrow> bindings \<Rightarrow> world \<Rightarrow> events_object outcome" where
  "bind_events root sub b w =
     (case qAll root ''[data-on]'' w of
        (Inl e, w') \<Rightarrow> (Inl e, w')
      | (Inr onEls, w') \<Rightarrow>
          (let events = scan_sources onEls w' in
           case b_events b of
             None \<Rightarrow> (Inr events, w')
           | Some entries \<Rightarrow>
               (case forEach (subscribe_callback sub events) entries w' of
                  (Inl e, w'') \<Rightarrow> (Inl e, w'')
                | (Inr _, w'') \<Rightarrow> (Inr events, w''))))"

definition and_then :: "'a outcome \<Rightarrow> ('a \<Rightarrow> world \<Rightarrow> 'b outcome) \<Rightarrow> 'b outcome" where
  "and_then r f = (case r of (Inl e, w) \<Rightarrow> (Inl e, w) | (Inr x, w) \<Rightarrow> f x w)"

definition bind :: "root_arg \<Rightarrow> bindings \<Rightarrow> world \<Rightarrow> binding_result outcome" where
  "bind root b w =
     (case root of
        HTMLElement _ \<Rightarrow>
          (let sub = handles w; w0 = w\<lparr>handles := Suc sub\<rparr> in
           and_then (bind_text root sub b w0) (\<lambda>_ w.
           and_then (bind_value root sub b w) (\<lambda>_ w.
           and_then (bind_html root sub b w) (\<lambda>_ w.
           and_then (bind_className root sub b w) (\<lambda>_ w.
           and_then (bind_disabled root sub b w) (\<lambda>_ w.
           and_then (bind_events root sub b w) (\<lambda>events w.
           and_then (bind_data root sub b w) (\<lambda>_ w.
             (Inr \<lparr>subscription = sub, events = events\<rparr>, w)))))))))
      | _ \<Rightarrow> (Inl (BindingError ''Root element must be a valid HTMLElement''), w))"

text \<open>
  \<^verbatim>\<open>dispose\<close>: \<^verbatim>\<open>sub.unsubscribe()\<close>, then the clean-up functions, of which
  \<^verbatim>\<open>bind\<close> never registers any.
\<close>

definition dispose :: "binding_result \<Rightarrow> world \<Rightarrow> world" where
  "dispose r w = unsubscribe (subscription r) w"

text \<open>\<^verbatim>\<open>bindTemplate\<close> of the same file is \<^verbatim>\<open>bind\<close>.\<close>

definition bindTemplate :: "root_arg \<Rightarrow> bindings \<Rightarrow> world \<Rightarrow> binding_result outcome" where
  "bindTemplate root b w = bind root b w"

section \<open>The plain \<^verbatim>\<open>bindTemplate\<close> of \<^verbatim>\<open>src/bind.ts\<close>\<close>

text \<open>
  Its \<^verbatim>\<open>qAll\<close> is \<^verbatim>\<open>Array.from(root.querySelectorAll(selector))\<close> with no check and
  no diagnostic: a root without the method is a \<^verbatim>\<open>TypeError\<close>, a rejected selector the
  platform's \<^verbatim>\<open>SyntaxError\<close>.
\<close>

definition qAll_plain :: "root_arg \<Rightarrow> string \<Rightarrow> world \<Rightarrow> (elem list) outcome" where
  "qAll_plain root selector w =
     (case root of
        HTMLElement querySelectorAll \<Rightarrow>
          (case querySelectorAll (elems w) selector of
             Some elements \<Rightarrow> (Inr elements, w)
           | None \<Rightarrow> (Inl (SyntaxError selector), w))
      | _ \<Rightarrow> (Inl (TypeError ''querySelectorAll''), w))"

text \<open>Its callbacks assign on whatever element the selector reached.\<close>

definition text_assign :: handler where
  "text_assign v options e = (set_textContent (if nullish v then [] else js_String v) e, None)"

definition value_assign :: handler where
  "value_assign v options e = set_value (if nullish v then [] else js_String v) options e"

definition className_assign_plain :: handler where
  "className_assign_plain v options e = set_className (if nullish v then [] else js_String v) e"

definition bind_each_plain ::
  "root_arg \<Rightarrow> nat \<Rightarrow> string \<Rightarrow> handler
     \<Rightarrow> (string \<times> observable) list option \<Rightarrow> world \<Rightarrow> unit outcome" where
  "bind_each_plain root sub attr f table w =
     (case table of
        None \<Rightarrow> (Inr (), w)
      | Some entries \<Rightarrow>
          forEach
            (\<lambda>(name, stream) w.
               case qAll_plain root (attr_selector attr name) w of
                 (Inl e, w') \<Rightarrow> (Inl e, w')
               | (Inr els, w') \<Rightarrow>
                   if length els = 0 then (Inr (), w')
                   else (Inr (), fold (\<lambda>el. subscribe sub stream (Assign el f)) els w'))
            entries w)"

definition bind_events_plain ::
  "root_arg \<Rightarrow> nat \<Rightarrow> bindings \<Rightarrow> world \<Rightarrow> events_object outcome" where
  "bind_events_plain root sub b w =
     (case qAll_plain root ''[data-on]'' w of
        (Inl e, w') \<Rightarrow> (Inl e, w')
      | (Inr onEls, w') \<Rightarrow>
          (let events = scan_sources onEls w' in
           case b_events b of
             None \<Rightarrow> (Inr events, w')
           | Some entries \<Rightarrow>
               (case forEach (subscribe_callback sub events) entries w' of
                  (Inl e, w'') \<Rightarrow> (Inl e, w'')
                | (Inr _, w'') \<Rightarrow> (Inr events, w''))))"

definition bindTemplate_plain :: "root_arg \<Rightarrow> bindings \<Rightarrow> world \<Rightarrow> binding_result outcome" where
  "bindTemplate_plain root b w =
     (let sub = handles w; w0 = w\<lparr>handles := Suc sub\<rparr> in
      and_then (bind_each_plain root sub ''data-text'' text_assign (b_text b) w0) (\<lambda>_ w.
      and_then (bind_each_plain root sub ''data-value'' value_assign (b_value b) w) (\<lambda>_ w.
      and_then (bind_each_plain root sub ''data-html'' html_assign (b_html b) w) (\<lambda>_ w.
      and_then (bind_each_plain root sub ''data-class'' className_assign_plain (b_className b) w) (\<lambda>_ w.
      and_then (bind_each_plain root sub ''data-disabled'' disabled_assign (b_disabled b) w) (\<lambda>_ w.
      and_then (bind_events_plain root sub b w) (\<lambda>events w.
        (Inr \<lparr>subscription = sub, events = events\<rparr>, w))))))))"

section \<open>The sink tables in a chosen order\<close>

text \<open>
  \<^verbatim>\<open>bind\<close> goes through its sink tables in one fixed order. To speak about other
  orders, the six blocks are named and run from a list.
\<close>

datatype kind = KText | KValue | KHtml | KClassName | KDisabled | KData

fun bind_kind :: "kind \<Rightarrow> root_arg \<Rightarrow> nat \<Rightarrow> bindings \<Rightarrow> world \<Rightarrow> unit outcome" where
  "bind_kind KText = bind_text"
| "bind_kind KValue = bind_value"
| "bind_kind KHtml = bind_html"
| "bind_kind KClassName = bind_className"
| "bind_kind KDisabled = bind_disabled"
| "bind_kind KData = bind_data"

definition bind_sinks :: "kind list \<Rightarrow> root_arg \<Rightarrow> nat \<Rightarrow> bindings \<Rightarrow> world \<Rightarrow> unit outcome" where
  "bind_sinks ks root sub b w = forEach (\<lambda>k. bind_kind k root sub b) ks w"

definition source_order :: "kind list" where
  "source_order = [KText, KValue, KHtml, KClassName, KDisabled, KData]"

definition table_of :: "(string \<times> observable) list option \<Rightarrow> (string \<times> observable) list" where
  "table_of t = (case t of None \<Rightarrow> [] | Some entries \<Rightarrow> entries)"

text \<open>
  The entries of the custom attribute tables that hold a stream, each with the
  attribute it sets.
\<close>

definition data_entries :: "bindings \<Rightarrow> (string \<times> string \<times> observable) list" where
  "data_entries b =
     concat (map (\<lambda>(key, table).
                    if startsWith key ''data-''
                    then concat (map (\<lambda>(selector, x).
                                        case x of IsObservable stream \<Rightarrow> [(key, selector, stream)]
                                                | NotObservable \<Rightarrow> [])
                                     table)
                    else [])
                 (b_other b))"

text \<open>The selectors \<^verbatim>\<open>bind\<close> resolves for its sink tables, and the elements they reach.\<close>

definition selectors :: "bindings \<Rightarrow> string list" where
  "selectors b =
     map fst (table_of (b_text b)) @ map fst (table_of (b_value b)) @
     map (\<lambda>(name, _). attr_selector ''data-html'' name) (table_of (b_html b)) @
     map (\<lambda>(name, _). attr_selector ''data-class'' name) (table_of (b_className b)) @
     map (\<lambda>(name, _). attr_selector ''data-disabled'' name) (table_of (b_disabled b)) @
     map (\<lambda>(key, selector, _). selector) (data_entries b)"

definition matched :: "(string \<Rightarrow> elem list option) \<Rightarrow> string list \<Rightarrow> elem list" where
  "matched q sels = concat (map (\<lambda>sel. case q sel of None \<Rightarrow> [] | Some els \<Rightarrow> els) sels)"

definition text_targets :: "(string \<Rightarrow> elem list option) \<Rightarrow> bindings \<Rightarrow> elem list" where
  "text_targets q b = matched q (map fst (table_of (b_text b)))"

definition value_targets :: "(string \<Rightarrow> elem list option) \<Rightarrow> bindings \<Rightarrow> elem list" where
  "value_targets q b = matched q (map fst (table_of (b_value b)))"

definition html_targets :: "(string \<Rightarrow> elem list option) \<Rightarrow> bindings \<Rightarrow> elem list" where
  "html_targets q b =
     matched q (map (\<lambda>(name, _). attr_selector ''data-html'' name) (table_of (b_html b)))"

text \<open>A run of emissions: each is a source and the value it emits.\<close>

definition emits :: "(nat \<times> jsval) list \<Rightarrow> world \<Rightarrow> world" where
  "emits evs w = fold (\<lambda>(s, v). emit s v) evs w"

section \<open>\<^verbatim>\<open>shareReplay({ bufferSize: 1, refCount: true })\<close>\<close>

text \<open>
  The operator in front of a source pipeline whose state is \<open>'s\<close>. While it has
  subscribers the pipeline is connected and every value it emits is stored in the
  one-place buffer and passed to the subscribers in order. A new subscriber first
  receives the buffer; the first one of a connection then connects the pipeline, which
  may emit at once. When the last subscriber leaves, the connection is dropped and the
  buffer with it; an event of the source that finds no connection is lost. \<open>delivered\<close>
  records who received what, oldest first.
\<close>

record ('s, 'a) shared =
  connection :: "'s option"
  buffer :: "'a option"
  observers :: "nat list"
  made :: nat
  delivered :: "(nat \<times> 'a) list"

datatype 'e action = Subscribe | Unsubscribe nat | Next 'e

definition multicast :: "'a \<Rightarrow> ('s, 'a) shared \<Rightarrow> ('s, 'a) shared" where
  "multicast v st =
     st\<lparr>buffer := Some v, delivered := delivered st @ map (\<lambda>ob. (ob, v)) (observers st)\<rparr>"

definition share_subscribe :: "'s \<times> 'a list \<Rightarrow> ('s, 'a) shared \<Rightarrow> ('s, 'a) shared" where
  "share_subscribe connect st =
     (let ob = made st;
          st1 = st\<lparr>made := Suc ob, observers := observers st @ [ob],
                   delivered := delivered st @
                     (case buffer st of None \<Rightarrow> [] | Some v \<Rightarrow> [(ob, v)])\<rparr>
      in case connection st1 of
           Some _ \<Rightarrow> st1
         | None \<Rightarrow> fold multicast (snd connect) (st1\<lparr>connection := Some (fst connect)\<rparr>))"

definition share_unsubscribe :: "nat \<Rightarrow> ('s, 'a) shared \<Rightarrow> ('s, 'a) shared" where
  "share_unsubscribe ob st =
     (if ob \<in> set (observers st)
      then (let rest = remove1 ob (observers st) in
            if rest = [] then st\<lparr>observers := [], connection := None, buffer := None\<rparr>
            else st\<lparr>observers := rest\<rparr>)
      else st)"

definition share_next :: "('e \<Rightarrow> 's \<Rightarrow> 's \<times> 'a list) \<Rightarrow> 'e \<Rightarrow> ('s, 'a) shared \<Rightarrow> ('s, 'a) shared" where
  "share_next feed ev st =
     (case connection st of
        None \<Rightarrow> st
      | Some s \<Rightarrow> (case feed ev s of (s', vs) \<Rightarrow> fold multicast vs (st\<lparr>connection := Some s'\<rparr>)))"

fun share_step ::
  "'s \<times> 'a list \<Rightarrow> ('e \<Rightarrow> 's \<Rightarrow> 's \<times> 'a list) \<Rightarrow> 'e action \<Rightarrow> ('s, 'a) shared \<Rightarrow> ('s, 'a) shared" where
  "share_step connect feed Subscribe st = share_subscribe connect st"
| "share_step connect feed (Unsubscribe ob) st = share_unsubscribe ob st"
| "share_step connect feed (Next ev) st = share_next feed ev st"

definition unshared :: "('s, 'a) shared" where
  "unshared = \<lparr>connection = None, buffer = None, observers = [], made = 0, delivered = []\<rparr>"

definition share_run ::
  "'s \<times> 'a list \<Rightarrow> ('e \<Rightarrow> 's \<Rightarrow> 's \<times> 'a list) \<Rightarrow> 'e action list \<Rightarrow> ('s, 'a) shared" where
  "share_run connect feed acts = fold (share_step connect feed) acts unshared"

definition received :: "nat \<Rightarrow> ('s, 'a) shared \<Rightarrow> 'a list" where
  "received ob st = map snd (filter (\<lambda>(ob', _). ob' = ob) (delivered st))"

section \<open>The model stream of \<^verbatim>\<open>runMVU\<close>\<close>

text \<open>
  \<^verbatim>\<open>msg$.pipe(scan(update, init), startWith(init), shareReplay(...))\<close>: on connecting,
  \<^verbatim>\<open>startWith\<close> emits \<open>init\<close> and \<^verbatim>\<open>scan\<close> starts from its seed \<open>init\<close>; each
  message then moves the accumulator and emits it.
\<close>

definition model_connect :: "'m \<Rightarrow> 'm \<times> 'm list" where
  "model_connect init = (init, [init])"

definition model_feed :: "('m \<Rightarrow> 'msg \<Rightarrow> 'm) \<Rightarrow> 'msg \<Rightarrow> 'm \<Rightarrow> 'm \<times> 'm list" where
  "model_feed update msg acc = (update acc msg, [update acc msg])"

definition model_stream :: "'m \<Rightarrow> ('m \<Rightarrow> 'msg \<Rightarrow> 'm) \<Rightarrow> 'msg action list \<Rightarrow> ('m, 'm) shared" where
  "model_stream init update acts = share_run (model_connect init) (model_feed update) acts"

text \<open>The messages of a history, and what a subscriber arriving now is handed.\<close>

fun messages :: "'e action list \<Rightarrow> 'e list" where
  "messages [] = []"
| "messages (Next m # acts) = m # messages acts"
| "messages (_ # acts) = messages acts"

definition greeting :: "'s \<times> 'a list \<Rightarrow> ('s, 'a) shared \<Rightarrow> (nat \<times> 'a) list" where
  "greeting connect st = drop (length (delivered st)) (delivered (share_subscribe connect st))"

text \<open>No action of the run leaves the stream without a subscriber.\<close>

fun attended ::
  "'s \<times> 'a list \<Rightarrow> ('e \<Rightarrow> 's \<Rightarrow> 's \<times> 'a list) \<Rightarrow> 'e action list \<Rightarrow> ('s, 'a) shared \<Rightarrow> bool" where
  "attended connect feed [] st = True"
| "attended connect feed (a # acts) st =
     (observers (share_step connect feed a st) \<noteq> [] \<and>
      attended connect feed acts (share_step connect feed a st))"

section \<open>The route stream: \<^verbatim>\<open>createHashRoute$\<close>\<close>

text \<open>
  \<open>h0\<close> is \<^verbatim>\<open>window.location.hash\<close> when the stream is built
  (\<^verbatim>\<open>startWith(getRoute())\<close> is evaluated then); an event carries its value at a
  \<^verbatim>\<open>hashchange\<close>. The pipeline's state is the route \<^verbatim>\<open>distinctUntilChanged\<close> let
  through last.
\<close>

definition getRoute :: "string \<Rightarrow> route" where
  "getRoute location_hash = parseRoute (or_else location_hash ''#/'')"

definition same_hash :: "route \<Rightarrow> route \<Rightarrow> bool" where
  "same_hash a b = (hash a = hash b)"

definition route_connect :: "string \<Rightarrow> route option \<times> route list" where
  "route_connect h0 = (Some (getRoute h0), [getRoute h0])"

definition route_feed :: "string \<Rightarrow> route option \<Rightarrow> route option \<times> route list" where
  "route_feed h prev =
     (let r = getRoute h in if passes same_hash prev r then (Some r, [r]) else (prev, []))"

definition createHashRoute :: "string \<Rightarrow> string action list \<Rightarrow> (route option, route) shared" where
  "createHashRoute h0 acts = share_run (route_connect h0) route_feed acts"

section \<open>Invariants of the shared streams\<close>

text \<open>
  While the model stream is connected its buffer holds the accumulator and somebody is
  subscribed; without a connection the buffer is empty and nobody is.
\<close>

definition model_inv :: "('m, 'm) shared \<Rightarrow> bool" where
  "model_inv st =
     (case connection st of
        None \<Rightarrow> buffer st = None \<and> observers st = []
      | Some acc \<Rightarrow> buffer st = Some acc \<and> observers st \<noteq> [])"

text \<open>
  For the route stream moreover: subscribers are distinct and were all handed the
  buffered route last, nobody ever received two routes of one hash in a row, and an
  identifier not yet given out has received nothing.
\<close>

definition route_inv :: "(route option, route) shared \<Rightarrow> bool" where
  "route_inv st =
     ((case connection st of
         None \<Rightarrow> buffer st = None \<and> observers st = []
       | Some prev \<Rightarrow> prev = buffer st \<and> prev \<noteq> None \<and> observers st \<noteq> []) \<and>
      distinct (observers st) \<and>
      (\<forall>ob \<in> set (observers st).
          ob < made st \<and> received ob st \<noteq> [] \<and> Some (last (received ob st)) = buffer st) \<and>
      (\<forall>ob. distinct_adj (map hash (received ob st))) \<and>
      (\<forall>ob. made st \<le> ob \<longrightarrow> received ob st = []))"

section \<open>Example pages\<close>

text \<open>
  An empty page of untouched \<^verbatim>\<open><div>\<close> elements with no option anywhere, a
  declaration with no table, and a \<^verbatim>\<open>Subject\<close>: a stream that replays nothing.
\<close>

definition blank :: element where
  "blank = \<lparr>tag = Div, children = Text [], value_prop = None, attrs = Map.empty,
             own_props = Map.empty, writes = 0\<rparr>"

definition blank_page :: world where
  "blank_page = \<lparr>elems = (\<lambda>_. blank), options_of = (\<lambda>_ _. []), console = [],
                  uncaught = [], sinks = [], callbacks = [], listeners = [], handles = 0\<rparr>"

definition no_bindings :: bindings where
  "no_bindings = \<lparr>b_text = None, b_value = None, b_html = None, b_className = None,
                   b_disabled = None, b_events = None, b_other = []\<rparr>"

definition subject :: "nat \<Rightarrow> observable" where
  "subject s = Observable s []"

text \<open>
  A root whose element \<open>0\<close> is \<^verbatim>\<open><div class="a" data-html="content">\<close>: both
  the selector \<^verbatim>\<open>.a\<close> and the markup name \<open>content\<close> reach it, whatever is
  written to it; every other selector matches nothing.
\<close>

definition one_div_query :: "store \<Rightarrow> string \<Rightarrow> elem list option" where
  "one_div_query page selector =
     (if selector = ''.a'' \<or> selector = attr_selector ''data-html'' ''content''
      then Some [0] else Some [])"

definition one_div :: root_arg where
  "one_div = HTMLElement one_div_query"

text \<open>
  A page of two elements, \<^verbatim>\<open><div class="a">\<close> and
  \<^verbatim>\<open><div data-html="content">\<close>, and a root that finds them by reading their
  attributes: \<^verbatim>\<open>.a\<close> reaches the elements whose class is \<open>a\<close>, the markup name
  \<open>content\<close> the elements whose \<open>data-html\<close> is \<open>content\<close>.
\<close>

definition two_divs_page :: world where
  "two_divs_page =
     blank_page\<lparr>elems := (\<lambda>_. blank)(0 := blank\<lparr>attrs := [''class'' \<mapsto> ''a'']\<rparr>,
                                        1 := blank\<lparr>attrs := [''data-html'' \<mapsto> ''content'']\<rparr>)\<rparr>"

definition two_divs_query :: "store \<Rightarrow> string \<Rightarrow> elem list option" where
  "two_divs_query page selector =
     (if selector = ''.a''
      then Some (filter (\<lambda>el. attrs (page el) ''class'' = Some ''a'') [0, 1])
      else if selector = attr_selector ''data-html'' ''content''
      then Some (filter (\<lambda>el. attrs (page el) ''data-html'' = Some ''content'') [0, 1])
      else Some [])"

text \<open>
  On the same page, a root that also reaches both elements by the class name \<open>both\<close>,
  and the declaration \<^verbatim>\<open>{ text: { '.a': of('x') }, className: { both: of('a') } }\<close>.
\<close>

definition class_query :: "store \<Rightarrow> string \<Rightarrow> elem list option" where
  "class_query page selector =
     (if selector = ''.a''
      then Some (filter (\<lambda>el. attrs (page el) ''class'' = Some ''a'') [0, 1])
      else if selector = attr_selector ''data-class'' ''both'' then Some [0, 1]
      else Some [])"

definition class_and_text :: bindings where
  "class_and_text =
     \<lparr>b_text = Some [(''.a'', Observable 1 [Str ''x''])], b_value = None, b_html = None,
      b_className = Some [(''both'', Observable 2 [Str ''a''])], b_disabled = None,
      b_events = None, b_other = []\<rparr>"

text \<open>
  The declaration \<^verbatim>\<open>{ text: { '.a': of('x') }, html: { content: of('y') } }\<close>, and
  the order of the tables with markup moved in front of text.
\<close>

definition text_and_html :: bindings where
  "text_and_html =
     no_bindings\<lparr>b_text := Some [(''.a'', Observable 1 [Str ''x''])],
                 b_html := Some [(''content'', Observable 2 [Str ''y''])]\<rparr>"

definition html_first :: "kind list" where
  "html_first = [KHtml, KText, KValue, KClassName, KDisabled, KData]"

text \<open>
  A page and root whose element \<open>0\<close> is \<^verbatim>\<open><button data-on="go">\<close>, the only
  element with a \<open>data-on\<close>.
\<close>

definition button_page :: world where
  "button_page =
     blank_page\<lparr>elems := (\<lambda>_. blank)(0 := blank\<lparr>tag := Button, attrs := [''data-on'' \<mapsto> ''go'']\<rparr>)\<rparr>"

definition one_button_query :: "store \<Rightarrow> string \<Rightarrow> elem list option" where
  "one_button_query page selector = (if selector = ''[data-on]'' then Some [0] else Some [])"

definition one_button :: root_arg where
  "one_button = HTMLElement one_button_query"

text \<open>
  Three elements under the selector \<^verbatim>\<open>input\<close>, the middle one a file input and the
  others text inputs, whose sanitization drops line breaks.
\<close>

definition strip_newlines :: "string \<Rightarrow> string" where
  "strip_newlines s = filter (\<lambda>c. c \<noteq> CHR 0x0A \<and> c \<noteq> CHR 0x0D) s"

definition text_input :: element where
  "text_input = blank\<lparr>tag := Input (Value_mode strip_newlines)\<rparr>"

definition file_input :: element where
  "file_input = blank\<lparr>tag := Input Filename_mode\<rparr>"

definition inputs_page :: world where
  "inputs_page = blank_page\<lparr>elems := (\<lambda>el. if el = 1 then file_input else text_input)\<rparr>"

text \<open>
  A page whose elements \<open>0\<close> and \<open>1\<close> are \<^verbatim>\<open><svg data-class="c">\<close> and
  \<^verbatim>\<open><p data-class="c">\<close>, under a root that reaches both by the class name \<open>c\<close>.
\<close>

definition svg_page :: world where
  "svg_page =
     blank_page\<lparr>elems := (\<lambda>_. blank)(0 := blank\<lparr>tag := Svg, attrs := [''data-class'' \<mapsto> ''c'']\<rparr>,
                                        1 := blank\<lparr>attrs := [''data-class'' \<mapsto> ''c'']\<rparr>)\<rparr>"

definition svg_query :: "store \<Rightarrow> string \<Rightarrow> elem list option" where
  "svg_query page selector =
     (if selector = attr_selector ''data-class'' ''c'' then Some [0, 1] else Some [])"

text \<open>
  A page whose element \<open>0\<close> is a \<^verbatim>\<open><select>\<close> that holds one option, the
  element \<open>1\<close> of value \<open>u\<close>, until markup is written to it, and a new option,
  the element \<open>2\<close> of value \<open>v\<close>, once its markup is
  \<^verbatim>\<open><option>v</option>\<close>. One selector reaches it as a value key, one name as a
  markup key.
\<close>

definition select_options :: "store \<Rightarrow> elem \<Rightarrow> option_list" where
  "select_options page el =
     (case children (page el) of
        Markup m \<Rightarrow> if m = ''<option>v</option>'' then [(2, ''v'')] else []
      | Text t \<Rightarrow> if t = [] then [(1, ''u'')] else [])"

definition select_page :: world where
  "select_page =
     blank_page\<lparr>elems := (\<lambda>_. blank)(0 := blank\<lparr>tag := Select\<rparr>),
                options_of := select_options\<rparr>"

definition select_query :: "store \<Rightarrow> string \<Rightarrow> elem list option" where
  "select_query page selector =
     (if selector = ''select'' \<or> selector = attr_selector ''data-html'' ''list''
      then Some [0] else Some [])"

definition value_and_html :: bindings where
  "value_and_html =
     no_bindings\<lparr>b_value := Some [(''select'', Observable 1 [Str ''v''])],
                 b_html := Some [(''list'', Observable 2 [Str ''<option>v</option>''])]\<rparr>"

text \<open>
  A page whose element \<open>0\<close> is \<^verbatim>\<open><button data-on="constructor">\<close>, and a root
  under which no element has a \<open>data-on\<close> at all.
\<close>

definition constructor_page :: world where
  "constructor_page =
     blank_page\<lparr>elems := (\<lambda>_. blank)(0 := blank\<lparr>tag := Button,
                                                    attrs := [''data-on'' \<mapsto> ''constructor'']\<rparr>)\<rparr>"

definition empty_query :: "store \<Rightarrow> string \<Rightarrow> elem list option" where
  "empty_query page selector = Some []"

section \<open>Notions used to state the results\<close>

text \<open>
  The lines \<^verbatim>\<open>console.error\<close> receives when \<open>h\<close> is applied with \<open>v\<close> to the
  elements \<open>els\<close> of the page \<open>w\<close>: one for each element on which it throws.
\<close>

definition error_lines :: "string \<Rightarrow> handler \<Rightarrow> jsval \<Rightarrow> world \<Rightarrow> elem list \<Rightarrow> string list" where
  "error_lines sel h v w els =
     concat (map (\<lambda>el. case snd (apply_to h v el w) of
                          None \<Rightarrow> []
                        | Some err \<Rightarrow> [''error: Error in binding handler for '' @ sel @ '': '' @ err])
                 els)"

text \<open>
  A handler that looks at nothing but the element it is given: what it does to one
  element does not depend on the options the platform reads for it.
\<close>

definition local_handler :: "handler \<Rightarrow> bool" where
  "local_handler h = (\<forall>v o1 o2 e. h v o1 e = h v o2 e)"

text \<open>A step that leaves the elements and the sink subscriptions as they were.\<close>

definition quiet :: "world \<Rightarrow> world \<Rightarrow> bool" where
  "quiet w w' = (elems w' = elems w \<and> sinks w' = sinks w)"

text \<open>
  The diagnostic of \<^verbatim>\<open>qAll\<close> for a selector that matches nothing. A step skips the
  selectors \<open>sels\<close> when it returns and changes nothing of the page but the console,
  which receives the diagnostic of each of them, in order.
\<close>

definition warning :: "string \<Rightarrow> string" where
  "warning selector = ''warn: No elements found for selector: '' @ selector"

definition skips :: "string list \<Rightarrow> world \<Rightarrow> unit outcome \<Rightarrow> bool" where
  "skips sels w r =
     (fst r = Inr () \<and> elems (snd r) = elems w \<and> sinks (snd r) = sinks w \<and>
      uncaught (snd r) = uncaught w \<and> console (snd r) = console w @ map warning sels)"

text \<open>The entries of the callback table of a declaration.\<close>

definition event_entries :: "bindings \<Rightarrow> (string \<times> string) list" where
  "event_entries b = (case b_events b of None \<Rightarrow> [] | Some entries \<Rightarrow> entries)"

text \<open>
  A step that only adds sink subscriptions, all of them to the \<^verbatim>\<open>Subscription\<close>
  \<open>h\<close>.
\<close>

definition grows :: "nat \<Rightarrow> world \<Rightarrow> world \<Rightarrow> bool" where
  "grows h w w' = (\<exists>new. sinks w' = sinks w @ new \<and> (\<forall>x \<in> set new. owner x = h))"

text \<open>
  What a step can do to the elements. A write is an element and a function applied to
  it; \<open>writes_of P\<close> are the changes of the element store made of any number of writes
  from \<open>P\<close>, one after the other.
\<close>

type_synonym elem_write = "elem \<times> (element \<Rightarrow> element)"

definition upd :: "elem \<Rightarrow> (element \<Rightarrow> element) \<Rightarrow> store \<Rightarrow> store" where
  "upd el g page = page(el := g (page el))"

inductive_set writes_of :: "elem_write set \<Rightarrow> (store \<Rightarrow> store) set"
  for P :: "elem_write set" where
    nothing: "(\<lambda>page. page) \<in> writes_of P"
  | another: "(el, g) \<in> P \<Longrightarrow> T \<in> writes_of P \<Longrightarrow> (\<lambda>page. upd el g (T page)) \<in> writes_of P"

text \<open>
  The pages a step is looked at on: those whose elements are in \<open>S\<close> and whose
  platform reads options as \<open>ov\<close> does. \<open>S\<close> is closed under \<open>P\<close> when no write of
  \<open>P\<close> leads out of it. A step \<open>performs P\<close> when its effect on the elements of such
  a page is a change made of writes from \<open>P\<close>, the same on all of them; it
  \<open>succeeds\<close> when it does not throw on any of them.
\<close>

definition steady :: "(store \<Rightarrow> bool) \<Rightarrow> (store \<Rightarrow> elem \<Rightarrow> option_list) \<Rightarrow> world \<Rightarrow> bool" where
  "steady S ov w = (S (elems w) \<and> options_of w = ov)"

definition closed :: "(store \<Rightarrow> bool) \<Rightarrow> elem_write set \<Rightarrow> bool" where
  "closed S P = (\<forall>(el, g) \<in> P. \<forall>page. S page \<longrightarrow> S (upd el g page))"

definition performs ::
  "(store \<Rightarrow> bool) \<Rightarrow> (store \<Rightarrow> elem \<Rightarrow> option_list) \<Rightarrow> elem_write set \<Rightarrow> (world \<Rightarrow> world) \<Rightarrow> bool" where
  "performs S ov P f =
     (\<exists>T \<in> writes_of P. \<forall>w. steady S ov w \<longrightarrow> elems (f w) = T (elems w) \<and> options_of (f w) = ov)"

definition succeeds ::
  "(store \<Rightarrow> bool) \<Rightarrow> (store \<Rightarrow> elem \<Rightarrow> option_list) \<Rightarrow> (world \<Rightarrow> unit outcome) \<Rightarrow> bool" where
  "succeeds S ov f = (\<forall>w. steady S ov w \<longrightarrow> fst (f w) = Inr ())"

text \<open>
  Two sets of writes are apart when a write of one and a write of the other are to
  different elements or can be swapped.
\<close>

definition apart :: "elem_write set \<Rightarrow> elem_write set \<Rightarrow> bool" where
  "apart P Q = (\<forall>(el, g) \<in> P. \<forall>(el', g') \<in> Q. el \<noteq> el' \<or> (\<forall>e. g (g' e) = g' (g e)))"

text \<open>
  The subscription after a value, and the writes a subscription makes of the values
  \<open>vs\<close> when the options of each element are what \<open>opts\<close> says.
\<close>

fun advance :: "jsval \<Rightarrow> observer \<Rightarrow> observer" where
  "advance v (Tap selector prev elements h) =
     (if passes strict_eq prev v then Tap selector (Some v) elements h
      else Tap selector prev elements h)"
| "advance v (Assign el f) = Assign el f"

fun gens :: "(elem \<Rightarrow> option_list) \<Rightarrow> jsval set \<Rightarrow> observer \<Rightarrow> elem_write set" where
  "gens opts vs (Tap selector prev elements h) =
     {(el, \<lambda>e. fst (h v (opts el) e)) | el v. el \<in> set elements \<and> v \<in> vs}"
| "gens opts vs (Assign el f) = {(el, \<lambda>e. fst (f v (opts el) e)) | v. v \<in> vs}"

text \<open>
  The handler of a subscription reads the same on every page of \<open>S\<close> as with the
  options \<open>opts\<close>.
\<close>

fun settled :: "(store \<Rightarrow> bool) \<Rightarrow> (store \<Rightarrow> elem \<Rightarrow> option_list) \<Rightarrow> (elem \<Rightarrow> option_list) \<Rightarrow> observer \<Rightarrow> bool" where
  "settled S ov opts (Tap selector prev elements h) =
     (\<forall>el \<in> set elements. \<forall>page v e. S page \<longrightarrow> h v (ov page el) e = h v (opts el) e)"
| "settled S ov opts (Assign el f) =
     (\<forall>page v e. S page \<longrightarrow> f v (ov page el) e = f v (opts el) e)"

text \<open>
  The writes the entries of a table make when they are subscribed: for each entry,
  every value its stream delivers on subscription, applied to every element its
  selector reaches. Then the writes of each sink table of a declaration, for the
  matches \<open>q\<close> and the options \<open>opts\<close>, and those of all the tables together.
\<close>

definition entry_writes ::
  "(string \<Rightarrow> elem list option) \<Rightarrow> (elem \<Rightarrow> option_list) \<Rightarrow> handler
     \<Rightarrow> (string \<times> observable) list \<Rightarrow> elem_write set" where
  "entry_writes q opts h entries =
     {(el, \<lambda>e. fst (h v (opts el) e)) | selector stream els el v.
        (selector, stream) \<in> set entries \<and> q selector = Some els \<and> el \<in> set els \<and>
        v \<in> set (replay stream)}"

definition named :: "string \<Rightarrow> (string \<times> observable) list \<Rightarrow> (string \<times> observable) list" where
  "named attr entries = map (\<lambda>(name, stream). (attr_selector attr name, stream)) entries"

fun footprint ::
  "(string \<Rightarrow> elem list option) \<Rightarrow> (elem \<Rightarrow> option_list) \<Rightarrow> bindings \<Rightarrow> kind \<Rightarrow> elem_write set" where
  "footprint q opts b KText = entry_writes q opts text_handler (table_of (b_text b))"
| "footprint q opts b KValue = entry_writes q opts value_handler (table_of (b_value b))"
| "footprint q opts b KHtml =
     entry_writes q opts html_assign (named ''data-html'' (table_of (b_html b)))"
| "footprint q opts b KClassName =
     entry_writes q opts className_assign (named ''data-class'' (table_of (b_className b)))"
| "footprint q opts b KDisabled =
     entry_writes q opts disabled_assign (named ''data-disabled'' (table_of (b_disabled b)))"
| "footprint q opts b KData =
     (\<Union>(key, selector, stream) \<in> set (data_entries b).
        entry_writes q opts (data_handler key) [(selector, stream)])"

definition sink_writes ::
  "(string \<Rightarrow> elem list option) \<Rightarrow> (elem \<Rightarrow> option_list) \<Rightarrow> bindings \<Rightarrow> elem_write set" where
  "sink_writes q opts b = (\<Union>k. footprint q opts b k)"

text \<open>The pages that writes from \<open>P\<close> make of the page \<open>page\<close>.\<close>

definition reach :: "elem_write set \<Rightarrow> store \<Rightarrow> store \<Rightarrow> bool" where
  "reach P page page' = (\<exists>T \<in> writes_of P. page' = T page)"

section \<open>The router\<close>

subsection \<open>Splitting\<close>

lemma split_nonempty: "split c s \<noteq> []"
  by (induction s) (auto split: list.splits)

lemma hd_split: "hd (split c s) = takeWhile (\<lambda>x. x \<noteq> c) s"
  by (induction s) (auto split: list.splits simp: split_nonempty)

lemma tl_split: "tl (split c s) = (if c \<in> set s then split c (drop 1 (dropWhile (\<lambda>x. x \<noteq> c) s)) else [])"
  by (induction s) (auto split: list.splits simp: split_nonempty)

lemma split_no_sep: "p \<in> set (split c s) \<Longrightarrow> c \<notin> set p"
  by (induction s arbitrary: p) (auto split: list.splits if_splits)

lemma concat_split: "concat (split c s) = filter (\<lambda>x. x \<noteq> c) s"
  by (induction s) (auto split: list.splits)

lemma fold_put_own:
  "fold (\<lambda>(k, v) m. put_own k v m) xs m
     = m ++ map_of (rev (filter (\<lambda>(k, v). k \<noteq> ''__proto__'') xs))"
  by (induction xs arbitrary: m) (auto simp: put_own_def map_add_def fun_eq_iff split: option.splits)

lemma first_piece: "(case take 2 (split c s) of [] \<Rightarrow> [] | p # _ \<Rightarrow> p) = takeWhile (\<lambda>x. x \<noteq> c) s"
  using hd_split [of c s] split_nonempty [of c s]
  by (cases "split c s") (auto split: list.splits)

lemma second_piece:
  "(case take 2 (split c s) of _ # q # _ \<Rightarrow> q | _ \<Rightarrow> []) =
     takeWhile (\<lambda>x. x \<noteq> c) (drop 1 (dropWhile (\<lambda>x. x \<noteq> c) s))"
proof (cases "split c s")
  case Nil
  then show ?thesis using split_nonempty [of c s] by simp
next
  case (Cons p ps)
  have t: "ps = (if c \<in> set s then split c (drop 1 (dropWhile (\<lambda>x. x \<noteq> c) s)) else [])"
    using tl_split [of c s] Cons by simp
  show ?thesis
  proof (cases "c \<in> set s")
    case True
    then have "ps = split c (drop 1 (dropWhile (\<lambda>x. x \<noteq> c) s))" using t by simp
    then have "hd ps = takeWhile (\<lambda>x. x \<noteq> c) (drop 1 (dropWhile (\<lambda>x. x \<noteq> c) s))" and "ps \<noteq> []"
      by (simp_all add: hd_split split_nonempty)
    then show ?thesis using Cons by (cases ps) auto
  next
    case False
    then have "ps = []" using t by simp
    moreover have "dropWhile (\<lambda>x. x \<noteq> c) s = []" using False by (auto simp: dropWhile_eq_Nil_conv)
    ultimately show ?thesis using Cons by (simp del: dropWhile_eq_Nil_conv)
  qed
qed

lemma concat_nonempty: "concat (filter (\<lambda>s. s \<noteq> []) xss) = concat xss"
  by (induction xss) auto

lemma no_pairs: "urlSearchParams [] = []"
  by (simp add: urlSearchParams_def startsWith_def)

subsection \<open>What \<^verbatim>\<open>parseRoute\<close> returns\<close>

text \<open>
  C9, as stated, promises the raw fragment in every route. The empty input is the
  exception: \<^verbatim>\<open>rawHash || '#/'\<close> puts \<open>#/\<close> in its place.
\<close>

theorem parseRoute_empty_counterexample: "hash (parseRoute []) \<noteq> []"
  by (simp add: parseRoute_def Let_def or_else_def)

text \<open>
  C9 (amended). For every input \<open>h\<close>, \<^verbatim>\<open>parseRoute\<close> returns a route whose
  \<open>hash\<close> is \<open>h\<close> itself, or \<open>#/\<close> when \<open>h\<close> is empty; whose \<open>path\<close> is the text
  of the fragment (the hash without one leading \<open>#\<close>) before its first \<open>?\<close>, made to
  start with \<open>/\<close>; whose \<open>segments\<close> are the non-empty pieces of the path between
  slashes, so each is non-empty, free of slashes, and together they are the path
  without its slashes; and whose \<open>params\<close> map each name to its last value among the
  pairs parsed from the text between the first and the second \<open>?\<close> (the limit of
  \<^verbatim>\<open>split('?', 2)\<close> drops what follows a second \<open>?\<close>; the name \<open>__proto__\<close>
  is not stored). The result is a
  function of the input alone: \<^verbatim>\<open>parseRoute\<close> reads and writes nothing else, and every
  call builds a new record.
\<close>

theorem parseRoute_fields:
  "let r = parseRoute h;
       frag = (if h = [] then ''/'' else if hd h = CHR ''#'' then tl h else h);
       before = takeWhile (\<lambda>c. c \<noteq> CHR ''?'') frag;
       after = takeWhile (\<lambda>c. c \<noteq> CHR ''?'') (drop 1 (dropWhile (\<lambda>c. c \<noteq> CHR ''?'') frag))
   in hash r = (if h = [] then ''#/'' else h)
    \<and> path r = (if before = [] then ''/'' else if hd before = CHR ''/'' then before else CHR ''/'' # before)
    \<and> hd (path r) = CHR ''/''
    \<and> segments r = filter (\<lambda>s. s \<noteq> []) (split (CHR ''/'') (path r))
    \<and> (\<forall>s \<in> set (segments r). s \<noteq> [] \<and> CHR ''/'' \<notin> set s)
    \<and> concat (segments r) = filter (\<lambda>c. c \<noteq> CHR ''/'') (path r)
    \<and> params r = map_of (rev (filter (\<lambda>(k, v). k \<noteq> ''__proto__'') (urlSearchParams after)))"
proof -
  define hs where "hs = or_else h ''#/''"
  define frag where "frag = (if h = [] then ''/'' else if hd h = CHR ''#'' then tl h else h)"
  have frag: "(if startsWith hs ''#'' then drop 1 hs else hs) = frag"
    unfolding hs_def frag_def or_else_def startsWith_def by (cases h) (auto simp: drop_Suc)
  define before where "before = takeWhile (\<lambda>c. c \<noteq> CHR ''?'') frag"
  define after where "after = takeWhile (\<lambda>c. c \<noteq> CHR ''?'') (drop 1 (dropWhile (\<lambda>c. c \<noteq> CHR ''?'') frag))"
  define p where "p = (if before = [] then ''/'' else if hd before = CHR ''/'' then before else CHR ''/'' # before)"
  have h: "hash (parseRoute h) = (if h = [] then ''#/'' else h)"
    by (simp add: parseRoute_def Let_def or_else_def)
  have pa: "path (parseRoute h) = p"
    unfolding parseRoute_def Let_def hs_def [symmetric] frag first_piece
    unfolding before_def [symmetric] p_def
    by (cases before) (auto simp: or_else_def startsWith_def)
  have se: "segments (parseRoute h) = filter (\<lambda>s. s \<noteq> []) (split (CHR ''/'') p)"
    using pa by (simp add: parseRoute_def Let_def)
  have pr: "params (parseRoute h)
      = map_of (rev (filter (\<lambda>(k, v). k \<noteq> ''__proto__'') (urlSearchParams after)))"
    unfolding parseRoute_def Let_def hs_def [symmetric] frag second_piece
    unfolding after_def [symmetric]
    by (simp add: fold_put_own no_pairs)
  have s1: "\<forall>s \<in> set (filter (\<lambda>s. s \<noteq> []) (split (CHR ''/'') p)). s \<noteq> [] \<and> CHR ''/'' \<notin> set s"
    by (auto dest: split_no_sep)
  have s2: "concat (filter (\<lambda>s. s \<noteq> []) (split (CHR ''/'') p)) = filter (\<lambda>c. c \<noteq> CHR ''/'') p"
    using concat_split [of "CHR ''/''" p] by (simp add: concat_nonempty)
  have hd: "hd p = CHR ''/''" by (simp add: p_def)
  have "hash (parseRoute h) = (if h = [] then ''#/'' else h)
    \<and> path (parseRoute h) = p
    \<and> hd (path (parseRoute h)) = CHR ''/''
    \<and> segments (parseRoute h) = filter (\<lambda>s. s \<noteq> []) (split (CHR ''/'') (path (parseRoute h)))
    \<and> (\<forall>s \<in> set (segments (parseRoute h)). s \<noteq> [] \<and> CHR ''/'' \<notin> set s)
    \<and> concat (segments (parseRoute h)) = filter (\<lambda>c. c \<noteq> CHR ''/'') (path (parseRoute h))
    \<and> params (parseRoute h)
        = map_of (rev (filter (\<lambda>(k, v). k \<noteq> ''__proto__'') (urlSearchParams after)))"
    unfolding se pa using h pr s1 s2 hd by blast
  then show ?thesis
    unfolding Let_def p_def before_def after_def frag_def .
qed


text \<open>The theorem at \<^verbatim>\<open>#/users/42?tab=details\<close>.\<close>

theorem parseRoute_fields_witness:
  "hash (parseRoute ''#/users/42?tab=details'') = ''#/users/42?tab=details''
   \<and> path (parseRoute ''#/users/42?tab=details'') = ''/users/42''
   \<and> segments (parseRoute ''#/users/42?tab=details'') = [''users'', ''42'']
   \<and> params (parseRoute ''#/users/42?tab=details'') = [''tab'' \<mapsto> ''details'']"
proof -
  note t = parseRoute_fields [of "''#/users/42?tab=details''", unfolded Let_def]
  have 1: "hash (parseRoute ''#/users/42?tab=details'') = ''#/users/42?tab=details''"
    using t [THEN conjunct1] by simp
  have 2: "path (parseRoute ''#/users/42?tab=details'') = ''/users/42''"
    using t [THEN conjunct2, THEN conjunct1] by simp
  have 3: "segments (parseRoute ''#/users/42?tab=details'') = [''users'', ''42'']"
    using t [THEN conjunct2, THEN conjunct2, THEN conjunct2, THEN conjunct1] unfolding 2 by simp
  have 4: "params (parseRoute ''#/users/42?tab=details'') = [''tab'' \<mapsto> ''details'']"
  proof -
    have u: "utf8 ''tab'' = ''tab''" "utf8 ''details'' = ''details''"
      by (simp_all add: utf8_def Let_def)
    show ?thesis
      using t [THEN conjunct2, THEN conjunct2, THEN conjunct2, THEN conjunct2, THEN conjunct2, THEN conjunct2]
      by (simp add: urlSearchParams_def url_pair_def plus_to_space_def startsWith_def u)
  qed
  show ?thesis using 1 2 3 4 by blast
qed


section \<open>The shared streams\<close>

subsection \<open>The model stream\<close>

lemma multicast_fields [simp]:
  "connection (multicast v st) = connection st" "observers (multicast v st) = observers st"
  "made (multicast v st) = made st" "buffer (multicast v st) = Some v"
  by (simp_all add: multicast_def)

lemma fold_multicast_fields [simp]:
  "connection (fold multicast vs st) = connection st" "observers (fold multicast vs st) = observers st"
  "made (fold multicast vs st) = made st"
  by (induction vs arbitrary: st) simp_all

lemma fold_multicast_buffer: "buffer (fold multicast vs st) = (if vs = [] then buffer st else Some (last vs))"
  by (induction vs arbitrary: st) simp_all

lemma fold_multicast_delivered:
  "delivered (fold multicast vs st) = delivered st @ concat (map (\<lambda>v. map (\<lambda>ob. (ob, v)) (observers st)) vs)"
  by (induction vs arbitrary: st) (simp_all add: multicast_def)

lemma model_inv_step:
  "model_inv st \<Longrightarrow> model_inv (share_step (model_connect init) (model_feed update) a st)"
  by (cases a)
     (auto simp: model_inv_def share_subscribe_def share_unsubscribe_def share_next_def Let_def
        model_connect_def model_feed_def fold_multicast_buffer split: option.splits)

lemma model_inv_run: "model_inv st \<Longrightarrow> model_inv (fold (share_step (model_connect init) (model_feed update)) acts st)"
  by (induction acts arbitrary: st) (simp_all add: model_inv_step)

lemma model_inv_unshared: "model_inv unshared"
  by (simp add: model_inv_def unshared_def)

lemma greeting_model:
  "model_inv st \<Longrightarrow>
   greeting (model_connect init) st = [(made st, case connection st of None \<Rightarrow> init | Some acc \<Rightarrow> acc)]"
  by (auto simp: greeting_def share_subscribe_def Let_def model_inv_def model_connect_def multicast_def
      split: option.splits)

lemma attended_fold:
  "connection st = Some acc \<Longrightarrow> model_inv st \<Longrightarrow>
   attended (model_connect init) (model_feed update) acts st \<Longrightarrow>
   connection (fold (share_step (model_connect init) (model_feed update)) acts st) = Some (foldl update acc (messages acts))"
proof (induction acts arbitrary: st acc)
  case Nil
  then show ?case by simp
next
  case (Cons a acts)
  let ?st = "share_step (model_connect init) (model_feed update) a st"
  have inv: "model_inv ?st" using Cons.prems(2) by (rule model_inv_step)
  have obs: "observers ?st \<noteq> []" and att: "attended (model_connect init) (model_feed update) acts ?st"
    using Cons.prems(3) by simp_all
  show ?case
  proof (cases a)
    case Subscribe
    then have "connection ?st = Some acc"
      using Cons.prems(1) by (simp add: share_subscribe_def Let_def)
    from Cons.IH [OF this inv att] show ?thesis using Subscribe by simp
  next
    case (Unsubscribe ob)
    then have "connection ?st = Some acc"
      using Cons.prems(1) obs by (auto simp: share_unsubscribe_def Let_def split: if_splits)
    from Cons.IH [OF this inv att] show ?thesis using Unsubscribe by simp
  next
    case (Next m)
    then have "connection ?st = Some (update acc m)"
      using Cons.prems(1) by (simp add: share_next_def model_feed_def)
    from Cons.IH [OF this inv att] show ?thesis using Next by simp
  qed
qed






subsection \<open>The route stream\<close>

lemma filter_eq_distinct: "distinct xs \<Longrightarrow> filter (\<lambda>x. x = a) xs = (if a \<in> set xs then [a] else [])"
  by (induction xs) auto

lemma received_multicast:
  "distinct (observers st) \<Longrightarrow>
   received ob (multicast v st) = received ob st @ (if ob \<in> set (observers st) then [v] else [])"
  by (simp add: received_def multicast_def filter_map comp_def filter_eq_distinct)

lemma route_inv_unshared: "route_inv unshared"
  by (simp add: route_inv_def unshared_def received_def)

lemma route_inv_subscribe:
  assumes "route_inv st"
  shows "route_inv (share_subscribe (route_connect h0) st)"
proof (cases "connection st")
  case None
  then have e: "buffer st = None" "observers st = []" using assms by (simp_all add: route_inv_def)
  let ?st1 = "st\<lparr>made := Suc (made st), observers := [made st], connection := Some (Some (getRoute h0))\<rparr>"
  have s: "share_subscribe (route_connect h0) st = multicast (getRoute h0) ?st1"
    using None e by (simp add: share_subscribe_def Let_def route_connect_def)
  have r1: "received ob ?st1 = received ob st" for ob by (simp add: received_def)
  have r: "received ob (multicast (getRoute h0) ?st1) = received ob st @ (if ob = made st then [getRoute h0] else [])" for ob
    by (subst received_multicast) (simp_all add: r1)
  have z: "received (made st) st = []" using assms by (simp add: route_inv_def)
  show ?thesis
    unfolding s using assms z
    by (auto simp: route_inv_def r)
next
  case (Some prev)
  then obtain p where p: "buffer st = Some p" "prev = Some p" "observers st \<noteq> []"
    using assms by (auto simp: route_inv_def)
  let ?st1 = "st\<lparr>made := Suc (made st), observers := observers st @ [made st],
                  delivered := delivered st @ [(made st, p)]\<rparr>"
  have s: "share_subscribe (route_connect h0) st = ?st1"
    using Some p by (simp add: share_subscribe_def Let_def)
  have r: "received ob ?st1 = received ob st @ (if ob = made st then [p] else [])" for ob
    by (simp add: received_def)
  have z: "received (made st) st = []" using assms by (simp add: route_inv_def)
  have fresh: "made st \<notin> set (observers st)" using assms by (auto simp: route_inv_def)
  show ?thesis
    unfolding s using assms z fresh Some p
    by (auto simp: route_inv_def r)
qed

lemma route_inv_unsubscribe:
  assumes "route_inv st"
  shows "route_inv (share_unsubscribe ob st)"
proof -
  have sub: "set (remove1 ob (observers st)) \<subseteq> set (observers st)" by (rule set_remove1_subset)
  have r: "received x (st\<lparr>observers := xs\<rparr>) = received x st"
          "received x (st\<lparr>observers := xs, connection := c, buffer := b\<rparr>) = received x st" for x xs c b
    by (simp_all add: received_def)
  show ?thesis
  proof (cases "ob \<in> set (observers st)")
    case False
    then show ?thesis using assms by (simp add: share_unsubscribe_def)
  next
    case True
    show ?thesis
    proof (cases "remove1 ob (observers st) = []")
      case True
      then show ?thesis using assms \<open>ob \<in> set (observers st)\<close>
        by (simp add: share_unsubscribe_def Let_def route_inv_def r)
    next
      case False
      then show ?thesis using assms \<open>ob \<in> set (observers st)\<close> sub
        by (auto simp: share_unsubscribe_def Let_def route_inv_def r split: option.splits)
    qed
  qed
qed

lemma route_inv_next:
  assumes "route_inv st"
  shows "route_inv (share_next route_feed h st)"
proof (cases "connection st")
  case None
  then show ?thesis using assms by (simp add: share_next_def)
next
  case (Some prev)
  then obtain p where p: "buffer st = Some p" "prev = Some p" "observers st \<noteq> []"
    using assms by (auto simp: route_inv_def)
  show ?thesis
  proof (cases "hash p = hash (getRoute h)")
    case True
    then have "share_next route_feed h st = st\<lparr>connection := Some prev\<rparr>"
      using Some p by (simp add: share_next_def route_feed_def Let_def passes_def same_hash_def)
    moreover have "st\<lparr>connection := Some prev\<rparr> = st" using Some by simp
    ultimately show ?thesis using assms by simp
  next
    case False
    let ?st1 = "st\<lparr>connection := Some (Some (getRoute h))\<rparr>"
    have s: "share_next route_feed h st = multicast (getRoute h) ?st1"
      using Some p False by (simp add: share_next_def route_feed_def Let_def passes_def same_hash_def)
    have r1: "received ob ?st1 = received ob st" for ob by (simp add: received_def)
    have d: "distinct (observers st)" using assms by (simp add: route_inv_def)
    have r: "received ob (multicast (getRoute h) ?st1)
             = received ob st @ (if ob \<in> set (observers st) then [getRoute h] else [])" for ob
      by (subst received_multicast) (simp_all add: r1 d)
    have lastp: "ob \<in> set (observers st) \<Longrightarrow> received ob st \<noteq> [] \<and> last (received ob st) = p" for ob
      using assms p by (auto simp: route_inv_def)
    have da: "distinct_adj (map hash (received ob st))" for ob using assms by (simp add: route_inv_def)
    have adj: "distinct_adj (map hash (received ob st @ [getRoute h]))" if "ob \<in> set (observers st)" for ob
      using lastp [OF that] da [of ob] False
      by (simp add: distinct_adj_append_iff last_map)
    have beyond: "made st \<le> ob \<Longrightarrow> ob \<notin> set (observers st)" for ob
      using assms by (auto simp: route_inv_def)
    show ?thesis
      unfolding s using assms p adj beyond
      by (auto simp: route_inv_def r)
  qed
qed

lemma route_inv_step: "route_inv st \<Longrightarrow> route_inv (share_step (route_connect h0) route_feed a st)"
  by (cases a) (simp_all add: route_inv_subscribe route_inv_unsubscribe route_inv_next)

lemma route_inv_fold: "route_inv st \<Longrightarrow> route_inv (fold (share_step (route_connect h0) route_feed) acts st)"
  by (induction acts arbitrary: st) (simp_all add: route_inv_step)

lemma route_inv_run: "route_inv (createHashRoute h0 acts)"
  unfolding createHashRoute_def share_run_def by (rule route_inv_fold [OF route_inv_unshared])

text \<open>
  C10. Whatever the subscriptions, departures and \<^verbatim>\<open>hashchange\<close> events, no subscriber
  of the route stream ever receives two routes in a row with equal \<open>hash\<close> fields; and
  a \<^verbatim>\<open>hashchange\<close> that finds the hash of the route emitted last unchanged delivers
  nothing to anybody.
\<close>

theorem route_stream_distinct:
  "distinct_adj (map hash (received ob (createHashRoute h0 acts))) \<and>
   (buffer (createHashRoute h0 acts) = Some r \<and> hash (getRoute h) = hash r \<longrightarrow>
      delivered (createHashRoute h0 (acts @ [Next h])) = delivered (createHashRoute h0 acts))"
proof
  show "distinct_adj (map hash (received ob (createHashRoute h0 acts)))"
    using route_inv_run [of h0 acts] by (simp add: route_inv_def)
  show "buffer (createHashRoute h0 acts) = Some r \<and> hash (getRoute h) = hash r \<longrightarrow>
      delivered (createHashRoute h0 (acts @ [Next h])) = delivered (createHashRoute h0 acts)"
  proof
    assume a: "buffer (createHashRoute h0 acts) = Some r \<and> hash (getRoute h) = hash r"
    let ?st = "createHashRoute h0 acts"
    have c: "connection ?st = Some (Some r)"
      using route_inv_run [of h0 acts] a by (auto simp: route_inv_def split: option.splits)
    have "createHashRoute h0 (acts @ [Next h]) = share_next route_feed h ?st"
      by (simp add: createHashRoute_def share_run_def)
    also have "\<dots> = ?st\<lparr>connection := Some (Some r)\<rparr>"
      using c a by (simp add: share_next_def route_feed_def Let_def passes_def same_hash_def)
    finally show "delivered (createHashRoute h0 (acts @ [Next h])) = delivered ?st" by simp
  qed
qed

text \<open>
  The theorem on a history: a subscriber, a change to \<^verbatim>\<open>#/a\<close>, and a second
  \<^verbatim>\<open>hashchange\<close> that leaves \<^verbatim>\<open>#/a\<close> in place.
\<close>

lemma hash_getRoute: "hash (getRoute h) = (if h = [] then ''#/'' else h)"
  by (simp add: getRoute_def parseRoute_def Let_def or_else_def)

theorem route_stream_distinct_witness:
  "map hash (received 0 (createHashRoute [] [Subscribe, Next ''#/a''])) = [''#/'', ''#/a''] \<and>
   delivered (createHashRoute [] ([Subscribe, Next ''#/a''] @ [Next ''#/a'']))
     = [(0, getRoute []), (0, getRoute ''#/a'')]"
  using route_stream_distinct [of 0 "[]" "[Subscribe, Next ''#/a'']" "getRoute ''#/a''" "''#/a''"]
  by (simp add: createHashRoute_def share_run_def unshared_def share_subscribe_def share_next_def
        route_connect_def route_feed_def multicast_def received_def passes_def same_hash_def
        hash_getRoute Let_def)

section \<open>The binding engine\<close>

text \<open>The equations that run \<^verbatim>\<open>bind\<close> on a concrete page.\<close>

lemmas bind_defs = bind_def and_then_def bind_text_def bind_value_def bind_html_def
    bind_className_def bind_disabled_def bind_events_def bind_data_def bind_data_table_def
    bind_data_entry_def bindObservable_def qAll_def bind_each_def subscribe_def console_warn_def
    scan_sources_def subscribe_callback_def lookup_def assign_def merge_in_def no_events_def
    object_members_def observable_members_def run_callback_def apply_to_def try_handler_def
    report_unhandled_def console_error_def

lemmas page_defs = one_div_def one_div_query_def one_button_def one_button_query_def
    no_bindings_def blank_page_def button_page_def blank_def subject_def attr_selector_def

subsection \<open>What one delivery touches\<close>

lemma console_warn_fields [simp]:
  "elems (console_warn l w) = elems w" "sinks (console_warn l w) = sinks w"
  "callbacks (console_warn l w) = callbacks w" "listeners (console_warn l w) = listeners w"
  "handles (console_warn l w) = handles w" "console (console_warn l w) = console w @ [''warn: '' @ l]"
  "options_of (console_warn l w) = options_of w" "uncaught (console_warn l w) = uncaught w"
  by (simp_all add: console_warn_def)

lemma console_error_fields [simp]:
  "elems (console_error l w) = elems w" "sinks (console_error l w) = sinks w"
  "callbacks (console_error l w) = callbacks w" "listeners (console_error l w) = listeners w"
  "handles (console_error l w) = handles w" "console (console_error l w) = console w @ [''error: '' @ l]"
  "options_of (console_error l w) = options_of w" "uncaught (console_error l w) = uncaught w"
  by (simp_all add: console_error_def)

lemma report_unhandled_fields [simp]:
  "elems (report_unhandled l w) = elems w" "sinks (report_unhandled l w) = sinks w"
  "callbacks (report_unhandled l w) = callbacks w" "listeners (report_unhandled l w) = listeners w"
  "handles (report_unhandled l w) = handles w" "console (report_unhandled l w) = console w"
  "options_of (report_unhandled l w) = options_of w"
  "uncaught (report_unhandled l w) = uncaught w @ [l]"
  by (simp_all add: report_unhandled_def)

lemma try_handler_fields [simp]:
  "sinks (try_handler sel h v el w) = sinks w"
  "callbacks (try_handler sel h v el w) = callbacks w"
  "listeners (try_handler sel h v el w) = listeners w"
  "handles (try_handler sel h v el w) = handles w"
  "options_of (try_handler sel h v el w) = options_of w"
  "uncaught (try_handler sel h v el w) = uncaught w"
  "elems (try_handler sel h v el w) = (elems w)(el := fst (apply_to h v el w))"
  by (simp_all add: try_handler_def split: prod.splits option.splits)

lemma run_callback_fields [simp]:
  "sinks (run_callback f v el w) = sinks w"
  "callbacks (run_callback f v el w) = callbacks w"
  "listeners (run_callback f v el w) = listeners w"
  "handles (run_callback f v el w) = handles w"
  "options_of (run_callback f v el w) = options_of w"
  "console (run_callback f v el w) = console w"
  "elems (run_callback f v el w) = (elems w)(el := fst (apply_to f v el w))"
  by (simp_all add: run_callback_def split: prod.splits option.splits)

lemma try_handler_console:
  "console (try_handler sel h v el w) = console w @ error_lines sel h v w [el]"
  by (simp add: try_handler_def error_lines_def split: prod.splits option.splits)

lemma fold_try_handler_fields [simp]:
  "sinks (fold (try_handler sel h v) els w) = sinks w"
  "callbacks (fold (try_handler sel h v) els w) = callbacks w"
  "listeners (fold (try_handler sel h v) els w) = listeners w"
  "handles (fold (try_handler sel h v) els w) = handles w"
  "options_of (fold (try_handler sel h v) els w) = options_of w"
  "uncaught (fold (try_handler sel h v) els w) = uncaught w"
  by (induction els arbitrary: w) simp_all

text \<open>
  When the options read for the elements do not depend on what the handler writes,
  each element is handled as if it were the first.
\<close>

lemma apply_to_later:
  assumes "\<And>page. h v (options_of w page el) = h v (options_of w (elems w) el)"
    and "options_of w' = options_of w" and "elems w' el = elems w el"
  shows "apply_to h v el w' = apply_to h v el w"
  using assms(1) [of "elems w'"] assms(2,3) by (simp add: apply_to_def)

lemma fold_try_handler_elems:
  assumes "distinct els"
    and "\<And>page el. el \<in> set els \<Longrightarrow> h v (options_of w page el) = h v (options_of w (elems w) el)"
  shows "elems (fold (try_handler sel h v) els w) el
     = (if el \<in> set els then fst (apply_to h v el w) else elems w el)"
  using assms
proof (induction els arbitrary: w)
  case Nil
  then show ?case by simp
next
  case (Cons x xs)
  let ?w = "try_handler sel h v x w"
  have ov: "options_of ?w = options_of w" by simp
  have later: "apply_to h v y ?w = apply_to h v y w" if "y \<in> set xs" for y
  proof (rule apply_to_later)
    show "h v (options_of w page y) = h v (options_of w (elems w) y)" for page
      by (rule Cons.prems(2)) (use that in simp)
    show "options_of ?w = options_of w" by simp
    show "elems ?w y = elems w y" using Cons.prems(1) that by auto
  qed
  have hyp: "h v (options_of ?w page y) = h v (options_of ?w (elems ?w) y)"
    if "y \<in> set xs" for page y
  proof -
    have "h v (options_of w page y) = h v (options_of w (elems w) y)"
      "h v (options_of w (elems ?w) y) = h v (options_of w (elems w) y)"
      using Cons.prems(2) [of y] that by auto
    then show ?thesis unfolding ov by (rule trans [OF _ sym])
  qed
  have d: "distinct xs" using Cons.prems(1) by simp
  have "elems (fold (try_handler sel h v) xs ?w) el
          = (if el \<in> set xs then fst (apply_to h v el ?w) else elems ?w el)"
    by (rule Cons.IH [OF d hyp])
  moreover have "fold (try_handler sel h v) (x # xs) w = fold (try_handler sel h v) xs ?w" by simp
  moreover have "elems ?w el = (if el = x then fst (apply_to h v x w) else elems w el)" by simp
  moreover have "x \<notin> set xs" using Cons.prems(1) by simp
  ultimately show ?case using later by (cases "el \<in> set xs"; cases "el = x"; simp del: fold_simps)
qed

lemma fold_try_handler_console:
  assumes "distinct els"
    and "\<And>page el. el \<in> set els \<Longrightarrow> h v (options_of w page el) = h v (options_of w (elems w) el)"
  shows "console (fold (try_handler sel h v) els w) = console w @ error_lines sel h v w els"
  using assms
proof (induction els arbitrary: w)
  case Nil
  then show ?case by (simp add: error_lines_def)
next
  case (Cons x xs)
  let ?w = "try_handler sel h v x w"
  have later: "apply_to h v y ?w = apply_to h v y w" if "y \<in> set xs" for y
  proof (rule apply_to_later)
    show "h v (options_of w page y) = h v (options_of w (elems w) y)" for page
      by (rule Cons.prems(2)) (use that in simp)
    show "options_of ?w = options_of w" by simp
    show "elems ?w y = elems w y" using Cons.prems(1) that by auto
  qed
  have same: "error_lines sel h v ?w xs = error_lines sel h v w xs"
    unfolding error_lines_def using later by (intro arg_cong [where f = concat] map_cong) auto
  have ov: "options_of ?w = options_of w" by simp
  have hyp: "h v (options_of ?w page y) = h v (options_of ?w (elems ?w) y)"
    if "y \<in> set xs" for page y
  proof -
    have "h v (options_of w page y) = h v (options_of w (elems w) y)"
      "h v (options_of w (elems ?w) y) = h v (options_of w (elems w) y)"
      using Cons.prems(2) [of y] that by auto
    then show ?thesis unfolding ov by (rule trans [OF _ sym])
  qed
  have d: "distinct xs" using Cons.prems(1) by simp
  have "console (fold (try_handler sel h v) xs ?w) = console ?w @ error_lines sel h v ?w xs"
    by (rule Cons.IH [OF d hyp])
  moreover have "error_lines sel h v w (x # xs) = error_lines sel h v w [x] @ error_lines sel h v w xs"
    by (simp add: error_lines_def)
  moreover have "fold (try_handler sel h v) (x # xs) w = fold (try_handler sel h v) xs ?w" by simp
  ultimately show ?case using same by (simp only: try_handler_console append_assoc)
qed

lemma on_next_fields [simp]:
  "sinks (snd (on_next v ob w)) = sinks w"
  "callbacks (snd (on_next v ob w)) = callbacks w"
  "listeners (snd (on_next v ob w)) = listeners w"
  "handles (snd (on_next v ob w)) = handles w"
  "options_of (snd (on_next v ob w)) = options_of w"
  by (cases ob; simp)+

lemma emit_to_shape:
  "emit_to s v xs w = (xs', w') \<Longrightarrow>
   map (\<lambda>x. (owner x, src x)) xs' = map (\<lambda>x. (owner x, src x)) xs"
proof (induction xs arbitrary: w xs' w')
  case Nil
  then show ?case by simp
next
  case (Cons x xs)
  show ?case
  proof (cases "src x = s")
    case True
    obtain ob' w1 where o: "on_next v (observer x) w = (ob', w1)" by (cases "on_next v (observer x) w")
    obtain ys w2 where e: "emit_to s v xs w1 = (ys, w2)" by (cases "emit_to s v xs w1")
    have "xs' = x\<lparr>observer := ob'\<rparr> # ys" using Cons.prems True o e by simp
    then show ?thesis using Cons.IH [OF e] by simp
  next
    case False
    obtain ys w2 where e: "emit_to s v xs w = (ys, w2)" by (cases "emit_to s v xs w")
    have "xs' = x # ys" using Cons.prems False e by simp
    then show ?thesis using Cons.IH [OF e] by simp
  qed
qed

lemma emit_shape:
  "map (\<lambda>x. (owner x, src x)) (sinks (emit s v w)) = map (\<lambda>x. (owner x, src x)) (sinks w)"
proof -
  obtain xs' w' where e: "emit_to s v (sinks w) w = (xs', w')" by (cases "emit_to s v (sinks w) w")
  then have "sinks (emit s v w) = xs'" by (simp add: emit_def)
  then show ?thesis using emit_to_shape [OF e] by simp
qed


subsection \<open>A handler that throws\<close>

text \<open>
  \<^verbatim>\<open>bindObservable\<close> keeps a failure to the element it happened on. When a value
  passes the distinct filter of such a subscription over distinct elements, and the
  options read for them do not depend on what the handler writes, every element ends
  as its own call of the handler leaves it, whether or not the handler threw on
  another; the elements outside are untouched; the console receives one error line for
  each element on which the handler threw, in element order; nothing escapes to the
  host; and the subscription lives on with its elements and handler. No emission ends
  a subscription: the sinks of the page keep their owners and sources, in order.
\<close>

theorem handler_failure_is_isolated:
  assumes "distinct elements" and "passes strict_eq prev v"
    and "\<And>page el. el \<in> set elements \<Longrightarrow>
           h v (options_of w page el) = h v (options_of w (elems w) el)"
  shows "(case on_next v (Tap selector prev elements h) w of
            (ob', w') \<Rightarrow>
              ob' = Tap selector (Some v) elements h \<and>
              (\<forall>el \<in> set elements. elems w' el = fst (apply_to h v el w)) \<and>
              (\<forall>el. el \<notin> set elements \<longrightarrow> elems w' el = elems w el) \<and>
              console w' = console w @ error_lines selector h v w elements \<and>
              uncaught w' = uncaught w) \<and>
         map (\<lambda>x. (owner x, src x)) (sinks (emit s v w0)) = map (\<lambda>x. (owner x, src x)) (sinks w0)"
  using assms(2)
    fold_try_handler_elems [where els = elements and h = h and v = v and w = w, OF assms(1,3)]
    fold_try_handler_console [where els = elements and h = h and v = v and w = w, OF assms(1,3)]
  by (simp add: emit_shape)

text \<open>
  The theorem on three inputs of which the middle one is a file input, where the
  assignment of a value throws: the outer two are written, one error is logged.
\<close>

theorem handler_failure_is_isolated_witness:
  "(case on_next (Str ''x'') (Tap ''input'' None [0, 1, 2] value_handler) inputs_page of
      (ob', w') \<Rightarrow>
        ob' = Tap ''input'' (Some (Str ''x'')) [0, 1, 2] value_handler \<and>
        value_prop (elems w' 0) = Some ''x'' \<and> value_prop (elems w' 1) = None \<and>
        value_prop (elems w' 2) = Some ''x'' \<and>
        console w' = [''error: Error in binding handler for input: InvalidStateError''] \<and>
        uncaught w' = [])"
proof -
  have d: "distinct [0, 1, 2 :: nat]" by simp
  have p: "passes strict_eq None (Str ''x'')" by (simp add: passes_def)
  have o: "value_handler (Str ''x'') (options_of inputs_page page el)
             = value_handler (Str ''x'') (options_of inputs_page (elems inputs_page) el)" for page el
    by (simp add: inputs_page_def blank_page_def)
  obtain ob' w' where r: "on_next (Str ''x'') (Tap ''input'' None [0, 1, 2] value_handler) inputs_page = (ob', w')"
    by (cases "on_next (Str ''x'') (Tap ''input'' None [0, 1, 2] value_handler) inputs_page")
  note t = handler_failure_is_isolated [where elements = "[0, 1, 2]" and prev = None
      and v = "Str ''x''" and h = value_handler and w = inputs_page and selector = "''input''"
      and s = 0 and ?w0.0 = blank_page, OF d p o, unfolded r, simplified prod.case]
  have a: "apply_to value_handler (Str ''x'') 0 inputs_page
             = (text_input\<lparr>value_prop := Some ''x'', writes := 1\<rparr>, None)"
    "apply_to value_handler (Str ''x'') 2 inputs_page
             = (text_input\<lparr>value_prop := Some ''x'', writes := 1\<rparr>, None)"
    "apply_to value_handler (Str ''x'') 1 inputs_page = (file_input, Some ''InvalidStateError'')"
    "apply_to value_handler (Str ''x'') (Suc 0) inputs_page = (file_input, Some ''InvalidStateError'')"
    by (simp_all add: apply_to_def value_handler_def set_value_def inputs_page_def blank_page_def
          text_input_def file_input_def blank_def strip_newlines_def)
  have ob: "ob' = Tap ''input'' (Some (Str ''x'')) [0, 1, 2] value_handler" using t by blast
  have el: "\<forall>el \<in> set [0, 1, 2]. elems w' el = fst (apply_to value_handler (Str ''x'') el inputs_page)"
    using t by blast
  have v: "value_prop (elems w' 0) = Some ''x''" "value_prop (elems w' 1) = None"
    "value_prop (elems w' 2) = Some ''x''"
    using el by (simp_all add: a file_input_def blank_def)
  have c0: "console inputs_page = []" "uncaught inputs_page = []"
    by (simp_all add: inputs_page_def blank_page_def)
  have c: "console w' = [''error: Error in binding handler for input: InvalidStateError'']"
    using t c0 by (simp add: error_lines_def a)
  have u: "uncaught w' = []" using t c0 by simp
  show ?thesis unfolding r using ob v c u by simp
qed

text \<open>
  C3 at the input of a root with \<^verbatim>\<open><svg data-class="c">\<close> and
  \<^verbatim>\<open><p data-class="c">\<close>, the declaration \<^verbatim>\<open>{ className: { c: s } }\<close> and
  the emission \<^verbatim>\<open>s.next('x')\<close>. The class, markup and disabled tables subscribe
  each element with a bare callback, outside \<^verbatim>\<open>bindObservable\<close> and its
  \<^verbatim>\<open>try\<close>: the \<^verbatim>\<open>TypeError\<close> of the assignment on the SVG element is not caught
  by \<^verbatim>\<open>bind\<close> and not logged (the console holds only the warning about the absent
  \<open>data-on\<close> elements); it reaches the stream library, which hands it to the host.
  The paragraph is still written and both subscriptions stay.
\<close>

theorem class_failure_escapes:
  "(case bind (HTMLElement svg_query) (no_bindings\<lparr>b_className := Some [(''c'', subject 1)]\<rparr>) svg_page of
      (_, w) \<Rightarrow>
        (console (emit 1 (Str ''x'') w), uncaught (emit 1 (Str ''x'') w),
         attrs (elems (emit 1 (Str ''x'') w) 1) ''class'',
         map owner (sinks (emit 1 (Str ''x'') w))))
   = ([''warn: No elements found for selector: [data-on]''], [''TypeError''], Some ''x'', [0, 0])"
  by (simp add: bind_defs page_defs svg_query_def svg_page_def emit_def className_assign_def
        set_className_def put_attr_def)

text \<open>
  The same stream and elements bound through \<^verbatim>\<open>bindObservable\<close>, with the class
  callback as its handler, log the failure and let nothing escape.
\<close>

lemma class_failure_caught_by_tap:
  "(case on_next (Str ''x'') (Tap ''c'' None [0, 1] className_assign) svg_page of
      (_, w) \<Rightarrow> (console w, uncaught w, attrs (elems w 1) ''class''))
   = ([''error: Error in binding handler for c: TypeError''], [], Some ''x'')"
  by (simp add: bind_defs page_defs svg_page_def passes_def className_assign_def
        set_className_def put_attr_def)


subsection \<open>Sequencing\<close>

lemma forEach_invariant:
  assumes "\<And>x w. x \<in> set xs \<Longrightarrow> R w (snd (f x w))"
    and "\<And>w. R w w" and "\<And>a b c. R a b \<Longrightarrow> R b c \<Longrightarrow> R a c"
  shows "R w (snd (forEach f xs w))"
  using assms(1)
proof (induction xs arbitrary: w)
  case Nil
  then show ?case by (simp add: assms(2))
next
  case (Cons x xs)
  have step: "R w (snd (f x w))" using Cons.prems by simp
  show ?case
  proof (cases "f x w")
    case (Pair res w')
    show ?thesis
    proof (cases res)
      case (Inl e)
      then show ?thesis using Pair step by simp
    next
      case (Inr u)
      have "R w' (snd (forEach f xs w'))" using Cons.IH Cons.prems by simp
      then show ?thesis using Pair Inr step assms(3) by fastforce
    qed
  qed
qed

subsection \<open>Zero matches\<close>

text \<open>
  A step that leaves the elements, the sink subscriptions and the way options are
  read as they were, and only adds to the console.
\<close>

lemma quiet_refl: "quiet w w" by (simp add: quiet_def)
lemma quiet_trans: "quiet a b \<Longrightarrow> quiet b c \<Longrightarrow> quiet a c" by (simp add: quiet_def)

lemma skips_nothing: "skips [] w (Inr (), w)"
  by (simp add: skips_def)

lemma skips_then:
  assumes "skips xs w r" and "skips ys (snd r) r'"
  shows "skips (xs @ ys) w r'"
  using assms by (simp add: skips_def)

lemma forEach_skips:
  assumes "\<And>x w. x \<in> set xs \<Longrightarrow> elems w = page \<Longrightarrow> skips (g x) w (f x w)"
    and "elems w = page"
  shows "skips (concat (map g xs)) w (forEach f xs w)"
  using assms
proof (induction xs arbitrary: w)
  case Nil
  then show ?case by (simp add: skips_def)
next
  case (Cons x xs)
  have s: "skips (g x) w (f x w)" using Cons.prems by simp
  then obtain w' where w': "f x w = (Inr (), w')" by (cases "f x w") (auto simp: skips_def)
  have e: "elems w' = page" using s w' Cons.prems(2) by (simp add: skips_def)
  have "skips (concat (map g xs)) w' (forEach f xs w')"
  proof (rule Cons.IH [OF _ e])
    show "skips (g y) u (f y u)" if "y \<in> set xs" "elems u = page" for y and u :: world
      using Cons.prems(1) [of y u] that by simp
  qed
  then have "skips (g x @ concat (map g xs)) w (forEach f xs w')"
    using skips_then [of "g x" w "f x w"] s w' by simp
  then show ?case using w' by simp
qed

lemma bindObservable_empty:
  "q (elems w) selector = Some [] \<Longrightarrow>
   bindObservable (HTMLElement q) sub selector stream h w
     = (Inr (), console_warn (''No elements found for selector: '' @ selector) w)"
  by (simp add: bindObservable_def qAll_def)

lemma bind_each_empty:
  "q (elems w) (attr_selector attr name) = Some [] \<Longrightarrow>
   bind_each (HTMLElement q) sub attr f (name, stream) w
     = (Inr (), console_warn (''No elements found for selector: '' @ attr_selector attr name) w)"
  by (simp add: bind_each_def qAll_def)

lemma bind_each_plain_empty:
  "q (elems w) (attr_selector attr name) = Some [] \<Longrightarrow>
   bind_each_plain (HTMLElement q) sub attr f (Some [(name, stream)]) w = (Inr (), w)"
  by (simp add: bind_each_plain_def qAll_plain_def)


lemma console_warn_skips: "skips [sel] w (Inr (), console_warn (''No elements found for selector: '' @ sel) w)"
  by (simp add: skips_def warning_def)

lemma tap_table_skips:
  assumes "\<forall>sel \<in> fst ` set entries. q page sel = Some []" and "elems w = page"
  shows "skips (map fst entries) w
           (forEach (\<lambda>(selector, stream). bindObservable (HTMLElement q) sub selector stream h) entries w)"
proof -
  have eq: "map fst entries = concat (map (\<lambda>x. [fst x]) entries)" by (induction entries) auto
  show ?thesis
    unfolding eq
  proof (rule forEach_skips [OF _ assms(2)])
    fix x and u :: world assume x: "x \<in> set entries" and u: "elems u = page"
    obtain sel stream where p: "x = (sel, stream)" by (cases x)
    then have "q (elems u) sel = Some []" using assms(1) x u by force
    then show "skips [fst x] u ((case x of (selector, stream) \<Rightarrow>
                 bindObservable (HTMLElement q) sub selector stream h) u)"
      using p console_warn_skips [of sel u] by (simp add: bindObservable_empty)
  qed
qed

lemma each_table_skips:
  assumes "\<forall>name \<in> fst ` set entries. q page (attr_selector attr name) = Some []" and "elems w = page"
  shows "skips (map (\<lambda>(name, _). attr_selector attr name) entries) w
           (forEach (bind_each (HTMLElement q) sub attr f) entries w)"
proof -
  have eq: "map (\<lambda>(name, _). attr_selector attr name) entries
              = concat (map (\<lambda>x. [attr_selector attr (fst x)]) entries)"
    by (induction entries) auto
  show ?thesis
    unfolding eq
  proof (rule forEach_skips [OF _ assms(2)])
    fix x and u :: world assume x: "x \<in> set entries" and u: "elems u = page"
    obtain name stream where p: "x = (name, stream)" by (cases x)
    then have "q (elems u) (attr_selector attr name) = Some []" using assms(1) x u by force
    then show "skips [attr_selector attr (fst x)] u (bind_each (HTMLElement q) sub attr f x u)"
      using p console_warn_skips [of "attr_selector attr name" u] by (simp add: bind_each_empty)
  qed
qed

lemma text_skips:
  assumes "\<forall>sel \<in> set (selectors b). q page sel = Some []" and "elems w = page"
  shows "skips (map fst (table_of (b_text b))) w (bind_text (HTMLElement q) sub b w)"
proof (cases "b_text b")
  case None
  then show ?thesis by (simp add: bind_text_def table_of_def skips_def)
next
  case (Some entries)
  have "\<forall>sel \<in> fst ` set entries. q page sel = Some []"
    using assms(1) Some by (auto simp: selectors_def table_of_def)
  from tap_table_skips [where q = q and page = page and entries = entries and w = w and sub = sub
      and h = text_handler, OF this assms(2)]
  show ?thesis using Some by (simp add: bind_text_def table_of_def)
qed

lemma value_skips:
  assumes "\<forall>sel \<in> set (selectors b). q page sel = Some []" and "elems w = page"
  shows "skips (map fst (table_of (b_value b))) w (bind_value (HTMLElement q) sub b w)"
proof (cases "b_value b")
  case None
  then show ?thesis by (simp add: bind_value_def table_of_def skips_def)
next
  case (Some entries)
  have "\<forall>sel \<in> fst ` set entries. q page sel = Some []"
    using assms(1) Some by (auto simp: selectors_def table_of_def)
  from tap_table_skips [where q = q and page = page and entries = entries and w = w and sub = sub
      and h = value_handler, OF this assms(2)]
  show ?thesis using Some by (simp add: bind_value_def table_of_def)
qed

lemma html_skips:
  assumes "\<forall>sel \<in> set (selectors b). q page sel = Some []" and "elems w = page"
  shows "skips (map (\<lambda>(name, _). attr_selector ''data-html'' name) (table_of (b_html b))) w
           (bind_html (HTMLElement q) sub b w)"
proof (cases "b_html b")
  case None
  then show ?thesis by (simp add: bind_html_def table_of_def skips_def)
next
  case (Some entries)
  have "\<forall>name \<in> fst ` set entries. q page (attr_selector ''data-html'' name) = Some []"
    using assms(1) Some by (force simp: selectors_def table_of_def)
  from each_table_skips [where q = q and page = page and entries = entries and w = w and sub = sub
      and f = html_assign, OF this assms(2)]
  show ?thesis using Some by (simp add: bind_html_def table_of_def)
qed

lemma className_skips:
  assumes "\<forall>sel \<in> set (selectors b). q page sel = Some []" and "elems w = page"
  shows "skips (map (\<lambda>(name, _). attr_selector ''data-class'' name) (table_of (b_className b))) w
           (bind_className (HTMLElement q) sub b w)"
proof (cases "b_className b")
  case None
  then show ?thesis by (simp add: bind_className_def table_of_def skips_def)
next
  case (Some entries)
  have "\<forall>name \<in> fst ` set entries. q page (attr_selector ''data-class'' name) = Some []"
    using assms(1) Some by (force simp: selectors_def table_of_def)
  from each_table_skips [where q = q and page = page and entries = entries and w = w and sub = sub
      and f = className_assign, OF this assms(2)]
  show ?thesis using Some by (simp add: bind_className_def table_of_def)
qed

lemma disabled_skips:
  assumes "\<forall>sel \<in> set (selectors b). q page sel = Some []" and "elems w = page"
  shows "skips (map (\<lambda>(name, _). attr_selector ''data-disabled'' name) (table_of (b_disabled b))) w
           (bind_disabled (HTMLElement q) sub b w)"
proof (cases "b_disabled b")
  case None
  then show ?thesis by (simp add: bind_disabled_def table_of_def skips_def)
next
  case (Some entries)
  have "\<forall>name \<in> fst ` set entries. q page (attr_selector ''data-disabled'' name) = Some []"
    using assms(1) Some by (force simp: selectors_def table_of_def)
  from each_table_skips [where q = q and page = page and entries = entries and w = w and sub = sub
      and f = disabled_assign, OF this assms(2)]
  show ?thesis using Some by (simp add: bind_disabled_def table_of_def)
qed

lemma data_entries_mem:
  assumes "(key, table) \<in> set (b_other b)" and "startsWith key ''data-''"
    and "(selector, IsObservable stream) \<in> set table"
  shows "(key, selector, stream) \<in> set (data_entries b)"
proof -
  have "(key, selector, stream)
          \<in> set (concat (map (\<lambda>(selector, x). case x of IsObservable stream \<Rightarrow> [(key, selector, stream)]
                                                       | NotObservable \<Rightarrow> []) table))"
    using assms(3) by (auto intro!: bexI [where x = "(selector, IsObservable stream)"])
  then show ?thesis
    unfolding data_entries_def using assms(1,2)
    by (auto intro!: bexI [where x = "(key, table)"])
qed


text \<open>The selectors of the streams of one custom attribute table, and of one key.\<close>

lemma data_skips:
  assumes "\<forall>sel \<in> set (selectors b). q page sel = Some []" and "elems w = page"
  shows "skips (map (\<lambda>(key, selector, _). selector) (data_entries b)) w
           (bind_data (HTMLElement q) sub b w)"
proof -
  define one :: "string \<Rightarrow> string \<times> slot \<Rightarrow> (string \<times> string \<times> observable) list" where
    "one = (\<lambda>key (selector, x). case x of IsObservable stream \<Rightarrow> [(key, selector, stream)]
                                         | NotObservable \<Rightarrow> [])"
  define sel :: "string \<times> string \<times> observable \<Rightarrow> string" where
    "sel = (\<lambda>(key, selector, _). selector)"
  define g :: "string \<times> (string \<times> slot) list \<Rightarrow> string list" where
    "g = (\<lambda>(key, table). if startsWith key ''data-''
              then concat (map (\<lambda>y. map sel (one key y)) table) else [])"
  have inner: "concat (map (\<lambda>y. map sel (one key y)) table) = map sel (concat (map (one key) table))"
    for key table
    by (induction table) auto
  have outer: "concat (map g xs)
      = map sel (concat (map (\<lambda>(key, table). if startsWith key ''data-''
                                 then concat (map (one key) table) else []) xs))" for xs
    by (induction xs) (auto simp: g_def inner)
  have all: "map sel (data_entries b) = concat (map g (b_other b))"
    unfolding outer data_entries_def one_def by simp
  have "skips (concat (map g (b_other b))) w (forEach (bind_data_table (HTMLElement q) sub) (b_other b) w)"
  proof (rule forEach_skips [OF _ assms(2)])
    fix x and u :: world assume x: "x \<in> set (b_other b)" and u: "elems u = page"
    obtain key table where p: "x = (key, table)" by (cases x)
    show "skips (g x) u (bind_data_table (HTMLElement q) sub x u)"
    proof (cases "startsWith key ''data-''")
      case False
      then show ?thesis using p by (simp add: bind_data_table_def skips_def g_def)
    next
      case True
      have "skips (concat (map (\<lambda>y. map sel (one key y)) table)) u
              (forEach (bind_data_entry (HTMLElement q) sub key) table u)"
      proof (rule forEach_skips [OF _ u])
        fix y and u' :: world assume y: "y \<in> set table" and u': "elems u' = page"
        obtain selector sl where py: "y = (selector, sl)" by (cases y)
        show "skips (map sel (one key y)) u' (bind_data_entry (HTMLElement q) sub key y u')"
        proof (cases sl)
          case NotObservable
          then show ?thesis using py by (simp add: bind_data_entry_def skips_def one_def)
        next
          case (IsObservable stream)
          have "(key, table) \<in> set (b_other b)" "(selector, IsObservable stream) \<in> set table"
            using x p y py IsObservable by simp_all
          then have "(key, selector, stream) \<in> set (data_entries b)"
            using True by (intro data_entries_mem)
          then have "selector \<in> (\<lambda>(key, selector, _). selector) ` set (data_entries b)"
            by (intro image_eqI [where x = "(key, selector, stream)"]) simp_all
          then have "selector \<in> set (selectors b)" by (simp add: selectors_def)
          then have "q (elems u') selector = Some []" using assms(1) u' by simp
          then show ?thesis using py IsObservable console_warn_skips [of selector u']
            by (simp add: bind_data_entry_def bindObservable_empty one_def sel_def)
        qed
      qed
      then show ?thesis using p True by (simp add: bind_data_table_def g_def)
    qed
  qed
  then show ?thesis unfolding all [symmetric] sel_def by (simp add: bind_data_def)
qed

lemma sinks_skip:
  assumes "\<forall>sel \<in> set (selectors b). q (elems w) sel = Some []"
  shows "skips (selectors b) w (bind_sinks source_order (HTMLElement q) sub b w)"
proof -
  let ?r = "HTMLElement q"
  define w1 where "w1 = snd (bind_text ?r sub b w)"
  define w2 where "w2 = snd (bind_value ?r sub b w1)"
  define w3 where "w3 = snd (bind_html ?r sub b w2)"
  define w4 where "w4 = snd (bind_className ?r sub b w3)"
  define w5 where "w5 = snd (bind_disabled ?r sub b w4)"
  note a = assms
  have 1: "skips (map fst (table_of (b_text b))) w (bind_text ?r sub b w)"
    by (rule text_skips [where q = q and page = "elems w", OF a refl])
  have e1: "elems w1 = elems w" using 1 by (simp add: skips_def w1_def)
  have 2: "skips (map fst (table_of (b_value b))) w1 (bind_value ?r sub b w1)"
    by (rule value_skips [where q = q and page = "elems w", OF a e1])
  have e2: "elems w2 = elems w" using 2 e1 by (simp add: skips_def w2_def)
  have 3: "skips (map (\<lambda>(name, _). attr_selector ''data-html'' name) (table_of (b_html b))) w2
             (bind_html ?r sub b w2)"
    by (rule html_skips [where q = q and page = "elems w", OF a e2])
  have e3: "elems w3 = elems w" using 3 e2 by (simp add: skips_def w3_def)
  have 4: "skips (map (\<lambda>(name, _). attr_selector ''data-class'' name) (table_of (b_className b))) w3
             (bind_className ?r sub b w3)"
    by (rule className_skips [where q = q and page = "elems w", OF a e3])
  have e4: "elems w4 = elems w" using 4 e3 by (simp add: skips_def w4_def)
  have 5: "skips (map (\<lambda>(name, _). attr_selector ''data-disabled'' name) (table_of (b_disabled b))) w4
             (bind_disabled ?r sub b w4)"
    by (rule disabled_skips [where q = q and page = "elems w", OF a e4])
  have e5: "elems w5 = elems w" using 5 e4 by (simp add: skips_def w5_def)
  have 6: "skips (map (\<lambda>(key, selector, _). selector) (data_entries b)) w5 (bind_data ?r sub b w5)"
    by (rule data_skips [where q = q and page = "elems w", OF a e5])
  have r1: "bind_text ?r sub b w = (Inr (), w1)" using 1 by (simp add: skips_def w1_def prod_eq_iff)
  have r2: "bind_value ?r sub b w1 = (Inr (), w2)" using 2 by (simp add: skips_def w2_def prod_eq_iff)
  have r3: "bind_html ?r sub b w2 = (Inr (), w3)" using 3 by (simp add: skips_def w3_def prod_eq_iff)
  have r4: "bind_className ?r sub b w3 = (Inr (), w4)" using 4 by (simp add: skips_def w4_def prod_eq_iff)
  have r5: "bind_disabled ?r sub b w4 = (Inr (), w5)" using 5 by (simp add: skips_def w5_def prod_eq_iff)
  obtain w6 where r6: "bind_data ?r sub b w5 = (Inr (), w6)"
    using 6 by (cases "bind_data ?r sub b w5") (auto simp: skips_def)
  have run: "bind_sinks source_order ?r sub b w = (Inr (), w6)"
    using r1 r2 r3 r4 r5 r6 by (simp add: bind_sinks_def source_order_def)
  have "skips (selectors b) w (Inr (), w6)"
    using 1 2 3 4 5 6 unfolding r1 r2 r3 r4 r5 r6 skips_def selectors_def by simp
  then show ?thesis by (simp add: run)
qed

subsection \<open>The event part\<close>

lemma subscribe_event_fields [simp]:
  "elems (subscribe_event sub name s cb w) = elems w"
  "sinks (subscribe_event sub name s cb w) = sinks w"
  "handles (subscribe_event sub name s cb w) = handles w"
  "console (subscribe_event sub name s cb w) = console w"
  "options_of (subscribe_event sub name s cb w) = options_of w"
  by (simp_all add: subscribe_event_def)

lemma subscribe_callback_fields [simp]:
  "elems (snd (subscribe_callback sub evs entry w)) = elems w"
  "sinks (snd (subscribe_callback sub evs entry w)) = sinks w"
  "handles (snd (subscribe_callback sub evs entry w)) = handles w"
  "console (snd (subscribe_callback sub evs entry w)) = console w"
  "options_of (snd (subscribe_callback sub evs entry w)) = options_of w"
  by (simp_all add: subscribe_callback_def split: prod.splits looked_up.splits)

lemma callbacks_fields [simp]:
  "elems (snd (forEach (subscribe_callback sub evs) entries w)) = elems w"
  "sinks (snd (forEach (subscribe_callback sub evs) entries w)) = sinks w"
  "options_of (snd (forEach (subscribe_callback sub evs) entries w)) = options_of w"
proof -
  have "elems (snd (forEach (subscribe_callback sub evs) entries w)) = elems w \<and>
        sinks (snd (forEach (subscribe_callback sub evs) entries w)) = sinks w \<and>
        options_of (snd (forEach (subscribe_callback sub evs) entries w)) = options_of w"
    by (rule forEach_invariant
          [where R = "\<lambda>a b. elems b = elems a \<and> sinks b = sinks a \<and> options_of b = options_of a"])
       simp_all
  then show "elems (snd (forEach (subscribe_callback sub evs) entries w)) = elems w"
    "sinks (snd (forEach (subscribe_callback sub evs) entries w)) = sinks w"
    "options_of (snd (forEach (subscribe_callback sub evs) entries w)) = options_of w"
    by simp_all
qed

lemma qAll_fields [simp]:
  "elems (snd (qAll root sel w)) = elems w" "sinks (snd (qAll root sel w)) = sinks w"
  "options_of (snd (qAll root sel w)) = options_of w"
  "handles (snd (qAll root sel w)) = handles w"
  by (simp_all add: qAll_def split: root_arg.splits option.splits)

lemma bind_events_fields [simp]:
  "elems (snd (bind_events root sub b w)) = elems w"
  "sinks (snd (bind_events root sub b w)) = sinks w"
  "options_of (snd (bind_events root sub b w)) = options_of w"
proof -
  obtain res w' where q: "qAll root ''[data-on]'' w = (res, w')" by (cases "qAll root ''[data-on]'' w")
  have f: "elems w' = elems w" "sinks w' = sinks w" "options_of w' = options_of w"
    using qAll_fields [of root "''[data-on]''" w] q by simp_all
  have "elems (snd (bind_events root sub b w)) = elems w \<and>
        sinks (snd (bind_events root sub b w)) = sinks w \<and>
        options_of (snd (bind_events root sub b w)) = options_of w"
  proof (cases res)
    case (Inl e)
    then show ?thesis using q f by (simp add: bind_events_def)
  next
    case (Inr onEls)
    show ?thesis
    proof (cases "b_events b")
      case None
      then show ?thesis using q f Inr by (simp add: bind_events_def Let_def)
    next
      case (Some entries)
      obtain r2 w2 where c: "forEach (subscribe_callback sub (scan_sources onEls w')) entries w' = (r2, w2)"
        by (cases "forEach (subscribe_callback sub (scan_sources onEls w')) entries w'")
      have "elems w2 = elems w'" "sinks w2 = sinks w'" "options_of w2 = options_of w'"
        using callbacks_fields [of sub "scan_sources onEls w'" entries w'] c by simp_all
      then show ?thesis using q f Inr Some c by (cases r2) (simp_all add: bind_events_def Let_def)
    qed
  qed
  then show "elems (snd (bind_events root sub b w)) = elems w"
    "sinks (snd (bind_events root sub b w)) = sinks w"
    "options_of (snd (bind_events root sub b w)) = options_of w"
    by simp_all
qed

lemma scan_sources_cong: "elems w' = elems w \<Longrightarrow> scan_sources els w' = scan_sources els w"
  by (simp add: scan_sources_def)

text \<open>No declared callback name resolves to something truthy that is no stream.\<close>

lemma callbacks_ok:
  assumes "\<forall>(name, cb) \<in> set entries. lookup evs name \<noteq> Not_a_stream"
  shows "fst (forEach (subscribe_callback sub evs) entries w) = Inr ()"
  using assms
proof (induction entries arbitrary: w)
  case Nil
  then show ?case by simp
next
  case (Cons x xs)
  obtain name cb where p: "x = (name, cb)" by (cases x)
  then have "lookup evs name \<noteq> Not_a_stream" using Cons.prems by simp
  then obtain w' where "subscribe_callback sub evs x w = (Inr (), w')"
    using p by (cases "lookup evs name") (simp_all add: subscribe_callback_def)
  then show ?case using Cons by simp
qed

lemma bind_events_ok:
  assumes "q (elems w) ''[data-on]'' = Some onEls"
    and "\<forall>(name, cb) \<in> set (case b_events b of None \<Rightarrow> [] | Some entries \<Rightarrow> entries).
           lookup (scan_sources onEls w) name \<noteq> Not_a_stream"
  shows "\<exists>evs. fst (bind_events (HTMLElement q) sub b w) = Inr evs"
proof -
  obtain w' where q: "qAll (HTMLElement q) ''[data-on]'' w = (Inr onEls, w')" and e: "elems w' = elems w"
    using assms(1) by (simp add: qAll_def)
  have s: "scan_sources onEls w' = scan_sources onEls w" using e by (rule scan_sources_cong)
  show ?thesis
  proof (cases "b_events b")
    case None
    then show ?thesis using q by (simp add: bind_events_def Let_def)
  next
    case (Some entries)
    have "fst (forEach (subscribe_callback sub (scan_sources onEls w)) entries w') = Inr ()"
      using assms(2) Some by (intro callbacks_ok) simp
    then obtain w2 where "forEach (subscribe_callback sub (scan_sources onEls w)) entries w' = (Inr (), w2)"
      by (cases "forEach (subscribe_callback sub (scan_sources onEls w)) entries w'") auto
    then show ?thesis using q s Some by (simp add: bind_events_def Let_def)
  qed
qed


lemma bind_still:
  assumes a: "\<forall>sel \<in> set (selectors b). q (elems w) sel = Some []"
  shows "quiet w (snd (bind (HTMLElement q) b w))"
    and "q (elems w) ''[data-on]'' = Some onEls \<Longrightarrow>
         \<forall>(name, cb) \<in> set (event_entries b). lookup (scan_sources onEls w) name \<noteq> Not_a_stream \<Longrightarrow>
         \<exists>r. fst (bind (HTMLElement q) b w) = Inr r"
proof -
  let ?r = "HTMLElement q" and ?sub = "handles w"
  let ?w0 = "w\<lparr>handles := Suc (handles w)\<rparr>"
  define w1 where "w1 = snd (bind_text ?r ?sub b ?w0)"
  define w2 where "w2 = snd (bind_value ?r ?sub b w1)"
  define w3 where "w3 = snd (bind_html ?r ?sub b w2)"
  define w4 where "w4 = snd (bind_className ?r ?sub b w3)"
  define w5 where "w5 = snd (bind_disabled ?r ?sub b w4)"
  define w6 where "w6 = snd (bind_events ?r ?sub b w5)"
  have e0: "elems ?w0 = elems w" by simp
  have 1: "skips (map fst (table_of (b_text b))) ?w0 (bind_text ?r ?sub b ?w0)"
    by (rule text_skips [where q = q and page = "elems w", OF a e0])
  have e1: "elems w1 = elems w" "sinks w1 = sinks w" using 1 by (simp_all add: skips_def w1_def)
  have 2: "skips (map fst (table_of (b_value b))) w1 (bind_value ?r ?sub b w1)"
    by (rule value_skips [where q = q and page = "elems w", OF a e1(1)])
  have e2: "elems w2 = elems w" "sinks w2 = sinks w" using 2 e1 by (simp_all add: skips_def w2_def)
  have 3: "skips (map (\<lambda>(name, _). attr_selector ''data-html'' name) (table_of (b_html b))) w2
             (bind_html ?r ?sub b w2)"
    by (rule html_skips [where q = q and page = "elems w", OF a e2(1)])
  have e3: "elems w3 = elems w" "sinks w3 = sinks w" using 3 e2 by (simp_all add: skips_def w3_def)
  have 4: "skips (map (\<lambda>(name, _). attr_selector ''data-class'' name) (table_of (b_className b))) w3
             (bind_className ?r ?sub b w3)"
    by (rule className_skips [where q = q and page = "elems w", OF a e3(1)])
  have e4: "elems w4 = elems w" "sinks w4 = sinks w" using 4 e3 by (simp_all add: skips_def w4_def)
  have 5: "skips (map (\<lambda>(name, _). attr_selector ''data-disabled'' name) (table_of (b_disabled b))) w4
             (bind_disabled ?r ?sub b w4)"
    by (rule disabled_skips [where q = q and page = "elems w", OF a e4(1)])
  have e5: "elems w5 = elems w" "sinks w5 = sinks w" using 5 e4 by (simp_all add: skips_def w5_def)
  have e6: "elems w6 = elems w" "sinks w6 = sinks w" using e5 by (simp_all add: w6_def)
  have 7: "skips (map (\<lambda>(key, selector, _). selector) (data_entries b)) w6 (bind_data ?r ?sub b w6)"
    by (rule data_skips [where q = q and page = "elems w", OF a e6(1)])
  have r1: "bind_text ?r ?sub b ?w0 = (Inr (), w1)" using 1 by (simp add: skips_def w1_def prod_eq_iff)
  have r2: "bind_value ?r ?sub b w1 = (Inr (), w2)" using 2 by (simp add: skips_def w2_def prod_eq_iff)
  have r3: "bind_html ?r ?sub b w2 = (Inr (), w3)" using 3 by (simp add: skips_def w3_def prod_eq_iff)
  have r4: "bind_className ?r ?sub b w3 = (Inr (), w4)" using 4 by (simp add: skips_def w4_def prod_eq_iff)
  have r5: "bind_disabled ?r ?sub b w4 = (Inr (), w5)" using 5 by (simp add: skips_def w5_def prod_eq_iff)
  obtain w7 where r7: "bind_data ?r ?sub b w6 = (Inr (), w7)" and e7: "elems w7 = elems w" "sinks w7 = sinks w"
    using 7 e6 by (cases "bind_data ?r ?sub b w6") (auto simp: skips_def)
  obtain res where r6: "bind_events ?r ?sub b w5 = (res, w6)"
    by (cases "bind_events ?r ?sub b w5") (simp add: w6_def)
  have run: "bind ?r b w = (case res of Inl e \<Rightarrow> (Inl e, w6)
                             | Inr evs \<Rightarrow> (Inr \<lparr>subscription = ?sub, events = evs\<rparr>, w7))"
    using r1 r2 r3 r4 r5 r6 r7 by (cases res) (simp_all add: bind_def and_then_def Let_def)
  show "quiet w (snd (bind ?r b w))"
    unfolding run using e6 e7 by (cases res) (simp_all add: quiet_def)
  show "\<exists>r. fst (bind ?r b w) = Inr r"
    if on: "q (elems w) ''[data-on]'' = Some onEls"
      and ok: "\<forall>(name, cb) \<in> set (event_entries b). lookup (scan_sources onEls w) name \<noteq> Not_a_stream"
  proof -
    have q5: "q (elems w5) ''[data-on]'' = Some onEls" using on e5 by simp
    have sc: "scan_sources onEls w5 = scan_sources onEls w" using e5(1) by (rule scan_sources_cong)
    have ok5: "\<forall>(name, cb) \<in> set (case b_events b of None \<Rightarrow> [] | Some entries \<Rightarrow> entries).
                 lookup (scan_sources onEls w5) name \<noteq> Not_a_stream"
      using ok unfolding sc event_entries_def .
    have "\<exists>evs. fst (bind_events ?r ?sub b w5) = Inr evs"
      by (rule bind_events_ok [where q = q and w = w5 and onEls = onEls and b = b, OF q5 ok5])
    then obtain evs where "res = Inr evs" using r6 by auto
    then show ?thesis unfolding run by simp
  qed
qed



text \<open>
  A callback declared under \<open>constructor\<close>, a name that every plain object
  inherits, makes \<^verbatim>\<open>bind\<close> throw when no element carries that name, after the sink
  tables have run; when an element does carry it, the stream made for it is broken, the
  subscription fails, and no listener is registered.
\<close>

lemma inherited_callback_name:
  "fst (bind (HTMLElement empty_query) (no_bindings\<lparr>b_events := Some [(''constructor'', ''cb'')]\<rparr>) blank_page)
     = Inl (TypeError ''stream.subscribe is not a function'') \<and>
   (case bind one_button (no_bindings\<lparr>b_events := Some [(''constructor'', ''cb'')]\<rparr>) constructor_page of
      (r, w) \<Rightarrow> (listeners w, callbacks w, uncaught w)) = ([], [], [''TypeError''])"
  by (simp add: bind_defs page_defs empty_query_def constructor_page_def subscribe_event_def)


subsection \<open>Who owns the subscriptions\<close>

lemma grows_refl: "grows h w w"
  by (simp add: grows_def)

lemma grows_trans: "grows h a b \<Longrightarrow> grows h b c \<Longrightarrow> grows h a c"
  unfolding grows_def by (metis Un_iff append.assoc set_append)

lemma grows_same: "sinks w' = sinks w \<Longrightarrow> grows h w w'"
  by (simp add: grows_def)

lemma replay_fields [simp]:
  "sinks (snd (fold (\<lambda>v (ob, w). on_next v ob w) vs (ob, w))) = sinks w"
proof (induction vs arbitrary: ob w)
  case Nil
  then show ?case by simp
next
  case (Cons v vs)
  obtain ob' w' where o: "on_next v ob w = (ob', w')" by (cases "on_next v ob w")
  have "sinks w' = sinks w" using on_next_fields(1) [of v ob w] o by simp
  then show ?case using Cons o by simp
qed

lemma subscribe_sinks:
  "\<exists>x. sinks (subscribe h stream ob w) = sinks w @ [x] \<and> owner x = h"
proof -
  obtain ob' w' where f: "fold (\<lambda>v (ob, w). on_next v ob w) (replay stream) (ob, w) = (ob', w')"
    by (cases "fold (\<lambda>v (ob, w). on_next v ob w) (replay stream) (ob, w)")
  have "sinks w' = sinks w" using replay_fields [of "replay stream" ob w] f by simp
  then show ?thesis using f by (simp add: subscribe_def)
qed

lemma subscribe_grows: "grows h w (subscribe h stream ob w)"
  using subscribe_sinks [of h stream ob w] by (auto simp: grows_def)

lemma fold_subscribe_grows: "grows h w (fold (\<lambda>el. subscribe h stream (Assign el f)) els w)"
proof (induction els arbitrary: w)
  case Nil
  then show ?case by (simp add: grows_refl)
next
  case (Cons el els)
  show ?case using grows_trans [OF subscribe_grows Cons] by simp
qed

lemma qAll_sinks: "sinks (snd (qAll root sel w)) = sinks w"
  by (simp add: qAll_def split: root_arg.splits option.splits)

lemma bindObservable_grows: "grows h w (snd (bindObservable root h sel stream hnd w))"
proof (cases "qAll root sel w")
  case (Pair res w')
  have s: "sinks w' = sinks w" using qAll_sinks [of root sel w] Pair by simp
  show ?thesis
  proof (cases res)
    case (Inl e)
    then show ?thesis using Pair s by (simp add: bindObservable_def grows_same)
  next
    case (Inr els)
    have "grows h w w'" using s by (rule grows_same)
    moreover have "grows h w' (subscribe h stream (Tap sel None els hnd) w')" by (rule subscribe_grows)
    ultimately show ?thesis using Pair Inr by (auto simp: bindObservable_def intro: grows_trans)
  qed
qed

lemma bind_each_grows: "grows h w (snd (bind_each root h attr f entry w))"
proof (cases entry)
  case (Pair name stream)
  show ?thesis
  proof (cases "qAll root (attr_selector attr name) w")
    case P: (Pair res w')
    have s: "sinks w' = sinks w" using qAll_sinks [of root "attr_selector attr name" w] P by simp
    show ?thesis
    proof (cases res)
      case (Inl e)
      then show ?thesis using Pair P s by (simp add: bind_each_def grows_same)
    next
      case (Inr els)
      have "grows h w w'" using s by (rule grows_same)
      moreover have "grows h w' (fold (\<lambda>el. subscribe h stream (Assign el f)) els w')"
        by (rule fold_subscribe_grows)
      ultimately show ?thesis using Pair P Inr by (auto simp: bind_each_def intro: grows_trans)
    qed
  qed
qed

lemma forEach_grows:
  assumes "\<And>x w. grows h w (snd (f x w))"
  shows "grows h w (snd (forEach f xs w))"
  by (rule forEach_invariant [where R = "grows h"]) (auto intro: assms grows_refl grows_trans)

lemma bind_text_grows: "grows h w (snd (bind_text root h b w))"
proof (cases "b_text b")
  case None
  then show ?thesis by (simp add: bind_text_def grows_refl)
next
  case (Some entries)
  have "grows h w (snd (forEach (\<lambda>(selector, stream). bindObservable root h selector stream text_handler) entries w))"
    by (rule forEach_grows) (auto simp: bindObservable_grows split: prod.splits)
  then show ?thesis using Some by (simp add: bind_text_def)
qed

lemma bind_value_grows: "grows h w (snd (bind_value root h b w))"
proof (cases "b_value b")
  case None
  then show ?thesis by (simp add: bind_value_def grows_refl)
next
  case (Some entries)
  have "grows h w (snd (forEach (\<lambda>(selector, stream). bindObservable root h selector stream value_handler) entries w))"
    by (rule forEach_grows) (auto simp: bindObservable_grows split: prod.splits)
  then show ?thesis using Some by (simp add: bind_value_def)
qed

lemma bind_html_grows: "grows h w (snd (bind_html root h b w))"
  by (cases "b_html b") (simp_all add: bind_html_def grows_refl forEach_grows bind_each_grows)

lemma bind_className_grows: "grows h w (snd (bind_className root h b w))"
  by (cases "b_className b") (simp_all add: bind_className_def grows_refl forEach_grows bind_each_grows)

lemma bind_disabled_grows: "grows h w (snd (bind_disabled root h b w))"
  by (cases "b_disabled b") (simp_all add: bind_disabled_def grows_refl forEach_grows bind_each_grows)

lemma bind_data_entry_grows: "grows h w (snd (bind_data_entry root h key entry w))"
  by (cases entry; cases "snd entry") (auto simp: bind_data_entry_def bindObservable_grows grows_refl)

lemma bind_data_table_grows: "grows h w (snd (bind_data_table root h item w))"
  by (cases item) (simp add: bind_data_table_def forEach_grows bind_data_entry_grows grows_refl)

lemma bind_data_grows: "grows h w (snd (bind_data root h b w))"
  by (simp add: bind_data_def forEach_grows bind_data_table_grows)

lemma bind_events_grows: "grows h w (snd (bind_events root h b w))"
  by (rule grows_same) simp

lemma bind_grows:
  assumes "bind root b w0 = (res, w1)"
  shows "grows (handles w0) w0 w1 \<and> (\<forall>r. res = Inr r \<longrightarrow> subscription r = handles w0)"
proof (cases root)
  case (HTMLElement q)
  let ?h = "handles w0"
  let ?w = "w0\<lparr>handles := Suc (handles w0)\<rparr>"
  have start: "grows ?h w0 ?w" by (simp add: grows_same)
  obtain r1 w1' where 1: "bind_text root ?h b ?w = (r1, w1')" by (cases "bind_text root ?h b ?w")
  obtain r2 w2 where 2: "bind_value root ?h b w1' = (r2, w2)" by (cases "bind_value root ?h b w1'")
  obtain r3 w3 where 3: "bind_html root ?h b w2 = (r3, w3)" by (cases "bind_html root ?h b w2")
  obtain r4 w4 where 4: "bind_className root ?h b w3 = (r4, w4)" by (cases "bind_className root ?h b w3")
  obtain r5 w5 where 5: "bind_disabled root ?h b w4 = (r5, w5)" by (cases "bind_disabled root ?h b w4")
  obtain r6 w6 where 6: "bind_events root ?h b w5 = (r6, w6)" by (cases "bind_events root ?h b w5")
  obtain r7 w7 where 7: "bind_data root ?h b w6 = (r7, w7)" by (cases "bind_data root ?h b w6")
  have g1: "grows ?h w0 w1'" using grows_trans [OF start] bind_text_grows [of ?h ?w root b] 1 by simp
  have g2: "grows ?h w0 w2" using grows_trans [OF g1] bind_value_grows [of ?h w1' root b] 2 by simp
  have g3: "grows ?h w0 w3" using grows_trans [OF g2] bind_html_grows [of ?h w2 root b] 3 by simp
  have g4: "grows ?h w0 w4" using grows_trans [OF g3] bind_className_grows [of ?h w3 root b] 4 by simp
  have g5: "grows ?h w0 w5" using grows_trans [OF g4] bind_disabled_grows [of ?h w4 root b] 5 by simp
  have g6: "grows ?h w0 w6" using grows_trans [OF g5] bind_events_grows [of ?h w5 root b] 6 by simp
  have g7: "grows ?h w0 w7" using grows_trans [OF g6] bind_data_grows [of ?h w6 root b] 7 by simp
  have "w1 \<in> {w1', w2, w3, w4, w5, w6, w7} \<and> (\<forall>r. res = Inr r \<longrightarrow> subscription r = ?h)"
    using assms HTMLElement 1 2 3 4 5 6 7
    by (auto simp: bind_def and_then_def Let_def split: sum.splits)
  then show ?thesis using g1 g2 g3 g4 g5 g6 g7 by auto
next
  case RNull
  then show ?thesis using assms by (auto simp: bind_def grows_refl)
next
  case RUndefined
  then show ?thesis using assms by (auto simp: bind_def grows_refl)
next
  case RObject
  then show ?thesis using assms by (auto simp: bind_def grows_refl)
qed

subsection \<open>Disposal\<close>

lemma emits_owners: "map owner (sinks (emits evs w)) = map owner (sinks w)"
proof (induction evs arbitrary: w)
  case Nil
  then show ?case by (simp add: emits_def)
next
  case (Cons ev evs)
  obtain s v where ev: "ev = (s, v)" by (cases ev)
  have "map owner (sinks (emit s v w)) = map owner (sinks w)"
    using emit_shape [of s v w, THEN arg_cong, of "map fst"] by (simp add: comp_def)
  then show ?case using Cons [of "emit s v w"] ev by (simp add: emits_def)
qed

lemma emit_no_sinks: "sinks w = [] \<Longrightarrow> emit s v w = w"
  by (simp add: emit_def)

lemma emits_no_sinks: "sinks w = [] \<Longrightarrow> emits evs w = w"
  by (induction evs) (auto simp: emits_def emit_no_sinks)

lemma filter_owner_map: "filter (\<lambda>x. owner x \<noteq> h) xs = [] \<longleftrightarrow> (\<forall>o' \<in> set (map owner xs). o' = h)"
  by (induction xs) auto

text \<open>
  C5. After a successful \<^verbatim>\<open>bind\<close>, \<^verbatim>\<open>dispose\<close> removes exactly the sink
  subscriptions that call made (the page's earlier ones, all of older
  \<^verbatim>\<open>Subscription\<close>s, stay), and whatever is emitted afterwards no subscription of
  the disposed \<^verbatim>\<open>Subscription\<close> is there to be served. When the call was the only
  one on the page, then after \<^verbatim>\<open>dispose\<close>, whatever was emitted before it, no run of
  later emissions changes anything of the page: no element, no console line, no
  failure. A second \<^verbatim>\<open>dispose\<close> changes nothing.
\<close>

theorem dispose_silences:
  assumes "bind root b w0 = (Inr r, w1)"
  shows "((\<forall>x \<in> set (sinks w0). owner x < handles w0) \<longrightarrow> sinks (dispose r w1) = sinks w0) \<and>
         (\<forall>x \<in> set (sinks (emits evs (dispose r w))). owner x \<noteq> subscription r) \<and>
         (sinks w0 = [] \<longrightarrow> emits evs (dispose r (emits evs0 w1)) = dispose r (emits evs0 w1)) \<and>
         dispose r (dispose r w) = dispose r w"
proof (intro conjI impI)
  have "\<forall>o' \<in> set (map owner (sinks (dispose r w))). o' \<noteq> subscription r"
    by (auto simp: dispose_def unsubscribe_def)
  then have "\<forall>o' \<in> set (map owner (sinks (emits evs (dispose r w)))). o' \<noteq> subscription r"
    by (simp only: emits_owners)
  then show "\<forall>x \<in> set (sinks (emits evs (dispose r w))). owner x \<noteq> subscription r"
    by simp
  from bind_grows [OF assms] obtain new where
    new: "sinks w1 = sinks w0 @ new" "\<forall>x \<in> set new. owner x = handles w0" and r: "subscription r = handles w0"
    by (auto simp: grows_def)
  show "sinks (dispose r w1) = sinks w0" if "\<forall>x \<in> set (sinks w0). owner x < handles w0"
  proof -
    have "filter (\<lambda>x. owner x \<noteq> handles w0) (sinks w0) = sinks w0"
      using that by (auto simp: filter_id_conv)
    moreover have "filter (\<lambda>x. owner x \<noteq> handles w0) new = []"
      using new(2) by (auto simp: filter_empty_conv)
    ultimately show ?thesis using new(1) r by (simp add: dispose_def unsubscribe_def)
  qed
  show "emits evs (dispose r (emits evs0 w1)) = dispose r (emits evs0 w1)" if "sinks w0 = []"
  proof -
    have "\<forall>o' \<in> set (map owner (sinks w1)). o' = handles w0" using new that by simp
    then have "\<forall>o' \<in> set (map owner (sinks (emits evs0 w1))). o' = handles w0"
      by (simp only: emits_owners)
    then have "sinks (dispose r (emits evs0 w1)) = []"
      using r by (simp add: dispose_def unsubscribe_def filter_owner_map)
    then show ?thesis by (rule emits_no_sinks)
  qed
  show "dispose r (dispose r w) = dispose r w"
    by (simp add: dispose_def unsubscribe_def)
qed

text \<open>
  The theorem on a text sink: \<open>a\<close> is written before \<^verbatim>\<open>dispose\<close>, \<open>b\<close> is
  emitted after it and the text stays \<open>a\<close>.
\<close>

theorem dispose_silences_witness:
  "fst (bind one_div (no_bindings\<lparr>b_text := Some [(''.a'', subject 1)]\<rparr>) blank_page)
     = Inr \<lparr>subscription = 0, events = no_events\<rparr> \<and>
   children (elems (emits [(1, Str ''b'')]
      (dispose \<lparr>subscription = 0, events = no_events\<rparr>
         (emits [(1, Str ''a'')]
            (snd (bind one_div (no_bindings\<lparr>b_text := Some [(''.a'', subject 1)]\<rparr>) blank_page))))) 0)
     = Text ''a'' \<and>
   sinks (dispose \<lparr>subscription = 0, events = no_events\<rparr>
            (snd (bind one_div (no_bindings\<lparr>b_text := Some [(''.a'', subject 1)]\<rparr>) blank_page))) = []"
proof -
  let ?b = "no_bindings\<lparr>b_text := Some [(''.a'', subject 1)]\<rparr>"
  let ?r = "\<lparr>subscription = 0, events = no_events\<rparr>"
  define w1 where "w1 = snd (bind one_div ?b blank_page)"
  have f: "fst (bind one_div ?b blank_page) = Inr ?r"
    by (simp add: bind_defs page_defs)
  have b: "bind one_div ?b blank_page = (Inr ?r, w1)"
    using f by (simp add: w1_def prod_eq_iff)
  have s0: "sinks blank_page = []" "\<forall>x \<in> set (sinks blank_page). owner x < handles blank_page"
    by (simp_all add: blank_page_def)
  note t = dispose_silences [OF b, where evs = "[(1, Str ''b'')]" and ?evs0.0 = "[(1, Str ''a'')]"
      and w = blank_page]
  have e: "emits [(1, Str ''b'')] (dispose ?r (emits [(1, Str ''a'')] w1)) = dispose ?r (emits [(1, Str ''a'')] w1)"
    using t s0 by blast
  have d: "sinks (dispose ?r w1) = []" using t s0 by simp
  have c: "children (elems (dispose ?r (emits [(1, Str ''a'')] w1)) 0) = Text ''a''"
    unfolding w1_def
    by (simp add: bind_defs page_defs emits_def emit_def text_handler_def set_textContent_def
          passes_def strict_eq_def dispose_def unsubscribe_def)
  show ?thesis using f e d c unfolding w1_def by simp
qed

subsection \<open>The root check\<close>

text \<open>
  C4. Whatever is not an \<^verbatim>\<open>HTMLElement\<close> makes \<^verbatim>\<open>bind\<close> fail at once with the
  \<^verbatim>\<open>BindingError\<close> \<open>Root element must be a valid HTMLElement\<close>, and the page is
  exactly as it was: no \<^verbatim>\<open>Subscription\<close> has been made, no sink subscribed, no
  element written, nothing logged. (The error class has no kind field; the message is
  what tells this failure from an invalid selector.)
\<close>

theorem bind_invalid_root:
  "(\<forall>q. root \<noteq> HTMLElement q) \<Longrightarrow>
   bind root b w = (Inl (BindingError ''Root element must be a valid HTMLElement''), w)"
  by (cases root) (simp_all add: bind_def)


text \<open>The theorem at \<^verbatim>\<open>null\<close>, with a text sink that would have written at once.\<close>

theorem bind_invalid_root_witness:
  "bind RNull (no_bindings\<lparr>b_text := Some [(''.a'', Observable 1 [Str ''x''])]\<rparr>) blank_page
     = (Inl (BindingError ''Root element must be a valid HTMLElement''), blank_page)"
  using bind_invalid_root [of RNull] by simp

subsection \<open>Equal values re-emitted\<close>

text \<open>
  A \<^verbatim>\<open>bindObservable\<close> subscription (the text, value and custom attribute
  sinks) drops a value that is \<open>===\<close> to the last one it let through: no handler
  runs, nothing of the page changes and the subscription stays as it is.
\<close>

theorem tap_skips_equal_value:
  "strict_eq p v \<Longrightarrow>
   on_next v (Tap selector (Some p) elements h) w = (Tap selector (Some p) elements h, w)"
  by (simp add: passes_def)

text \<open>So a text sink that is sent \<open>a\<close> twice writes its element once.\<close>

lemma text_skips_equal_value:
  "(case bind one_div (no_bindings\<lparr>b_text := Some [(''.a'', subject 1)]\<rparr>) blank_page of
      (_, w) \<Rightarrow> writes (elems (emits [(1, Str ''a''), (1, Str ''a'')] w) 0)) = 1"
  by (simp add: bind_defs page_defs emits_def emit_def text_handler_def set_textContent_def passes_def
        strict_eq_def)

text \<open>
  C1 at the input \<^verbatim>\<open>bind(root, { html: { content: s } })\<close> with one element under
  \<^verbatim>\<open>[data-html="content"]\<close>, after which \<open>s\<close> emits \<open>a\<close> twice. The markup, class
  and disabled tables subscribe each element directly, without
  \<^verbatim>\<open>distinctUntilChanged\<close>: the element is written twice.
\<close>

theorem markup_rewrites_equal_value:
  "(case bind one_div (no_bindings\<lparr>b_html := Some [(''content'', subject 1)]\<rparr>) blank_page of
      (_, w) \<Rightarrow> writes (elems (emits [(1, Str ''a''), (1, Str ''a'')] w) 0)) = 2"
  by (simp add: bind_defs page_defs emits_def emit_def html_assign_def set_innerHTML_def)

subsection \<open>Binding the same root twice\<close>

text \<open>
  C2 at the input of one \<^verbatim>\<open><button data-on="go">\<close> and the declaration
  \<^verbatim>\<open>{ events: { go: onGo } }\<close> bound twice on the same root. \<^verbatim>\<open>bind\<close> never calls
  \<^verbatim>\<open>getOrCreateEventStream\<close> and never reads \<^verbatim>\<open>eventCache\<close>: each call builds its
  own shared stream from fresh \<^verbatim>\<open>fromEvent\<close> streams, and after the second call the
  button carries two native click listeners.
\<close>

theorem second_bind_registers_again:
  "(case bind one_button (no_bindings\<lparr>b_events := Some [(''go'', ''onGo'')]\<rparr>) button_page of
      (_, w) \<Rightarrow>
        (case bind one_button (no_bindings\<lparr>b_events := Some [(''go'', ''onGo'')]\<rparr>) w of
           (_, w') \<Rightarrow> (listeners w, listeners w')))
   = ([(0, ''go'', 0)], [(0, ''go'', 0), (1, ''go'', 0)])"
  by (simp add: bind_defs page_defs
        subscribe_event_def)

section \<open>The order of the sink tables\<close>

subsection \<open>Writes to the element store\<close>

lemma upd_commute:
  "el \<noteq> el' \<or> (\<forall>e. g (g' e) = g' (g e)) \<Longrightarrow> upd el g (upd el' g' s) = upd el' g' (upd el g s)"
  by (auto simp: upd_def fun_eq_iff)

lemma writes_of_comp:
  "T1 \<in> writes_of P \<Longrightarrow> T2 \<in> writes_of P \<Longrightarrow> (\<lambda>s. T1 (T2 s)) \<in> writes_of P"
proof (induction rule: writes_of.induct)
  case nothing
  then show ?case by simp
next
  case (another el g T)
  show ?case using writes_of.another [OF another.hyps(1) another.IH [OF another.prems]] by simp
qed

lemma writes_of_mono: "T \<in> writes_of P \<Longrightarrow> P \<subseteq> Q \<Longrightarrow> T \<in> writes_of Q"
  by (induction rule: writes_of.induct) (auto intro: writes_of.intros)

lemma one_commutes:
  assumes "apart P Q" "(el, g) \<in> P"
  shows "T \<in> writes_of Q \<Longrightarrow> upd el g (T s) = T (upd el g s)"
proof (induction arbitrary: s rule: writes_of.induct)
  case nothing
  then show ?case by simp
next
  case (another el' g' T)
  have c: "upd el g (upd el' g' x) = upd el' g' (upd el g x)" for x
  proof (rule upd_commute)
    show "el \<noteq> el' \<or> (\<forall>e. g (g' e) = g' (g e))"
      using assms another.hyps(1) unfolding apart_def by fast
  qed
  show ?case by (simp add: c another.IH)
qed

lemma writes_commute:
  assumes "apart P Q" "T' \<in> writes_of Q"
  shows "T \<in> writes_of P \<Longrightarrow> T (T' s) = T' (T s)"
proof (induction arbitrary: s rule: writes_of.induct)
  case nothing
  then show ?case by simp
next
  case (another el g T)
  show ?case by (simp add: another.IH one_commutes [OF assms(1) another.hyps(1) assms(2)])
qed

subsection \<open>Pages that writes do not lead out of\<close>

lemma closed_mono: "closed S Q \<Longrightarrow> P \<subseteq> Q \<Longrightarrow> closed S P"
  unfolding closed_def by blast

lemma closed_writes:
  assumes "closed S P"
  shows "T \<in> writes_of P \<Longrightarrow> S page \<Longrightarrow> S (T page)"
proof (induction arbitrary: page rule: writes_of.induct)
  case nothing
  then show ?case by simp
next
  case (another el g T)
  have "S (T page)" using another.IH another.prems by simp
  then show ?case using another.hyps(1) assms unfolding closed_def by blast
qed

lemma reach_refl: "reach P page page"
  unfolding reach_def by (intro bexI [of _ "\<lambda>page. page"]) (auto intro: writes_of.nothing)

lemma reach_closed: "closed (reach P page) P"
  unfolding closed_def reach_def
proof (intro ballI allI impI, clarify)
  fix el g T assume "(el, g) \<in> P" "T \<in> writes_of P"
  then have "(\<lambda>page. upd el g (T page)) \<in> writes_of P" by (rule writes_of.another)
  then show "\<exists>T' \<in> writes_of P. upd el g (T page) = T' page"
    by (intro bexI [of _ "\<lambda>page. upd el g (T page)"]) simp_all
qed

subsection \<open>Steps and their writes\<close>

lemma performs_same:
  "(\<And>w. steady S ov w \<Longrightarrow> elems (f w) = elems w \<and> options_of (f w) = options_of w) \<Longrightarrow>
   performs S ov P f"
  unfolding performs_def
  by (intro bexI [of _ "\<lambda>s. s"]) (auto intro: writes_of.nothing simp: steady_def)

lemma performs_steady:
  assumes "closed S P" and "performs S ov P f" and "steady S ov w"
  shows "steady S ov (f w)"
proof -
  obtain T where T: "T \<in> writes_of P" "\<forall>w. steady S ov w \<longrightarrow> elems (f w) = T (elems w) \<and> options_of (f w) = ov"
    using assms(2) unfolding performs_def by blast
  have "S (T (elems w))" using closed_writes [OF assms(1) T(1)] assms(3) by (simp add: steady_def)
  then show ?thesis using T(2) assms(3) by (simp add: steady_def)
qed

lemma performs_comp:
  assumes "closed S P" and "performs S ov P f" and "performs S ov P g"
  shows "performs S ov P (\<lambda>w. g (f w))"
proof -
  obtain T where T: "T \<in> writes_of P" "\<forall>w. steady S ov w \<longrightarrow> elems (f w) = T (elems w) \<and> options_of (f w) = ov"
    using assms(2) unfolding performs_def by blast
  obtain T' where T': "T' \<in> writes_of P" "\<forall>w. steady S ov w \<longrightarrow> elems (g w) = T' (elems w) \<and> options_of (g w) = ov"
    using assms(3) unfolding performs_def by blast
  have "elems (g (f w)) = T' (T (elems w)) \<and> options_of (g (f w)) = ov" if "steady S ov w" for w
  proof -
    have "steady S ov (f w)" using performs_steady [OF assms(1,2) that] .
    then show ?thesis using T(2) T'(2) that by simp
  qed
  then show ?thesis
    unfolding performs_def
    by (intro bexI [of _ "\<lambda>s. T' (T s)"]) (auto intro: writes_of_comp T(1) T'(1))
qed

lemma performs_mono: "P \<subseteq> Q \<Longrightarrow> performs S ov P f \<Longrightarrow> performs S ov Q f"
  unfolding performs_def using writes_of_mono by blast

lemma performs_cong:
  assumes "\<And>w. steady S ov w \<Longrightarrow> elems (f w) = elems (g w) \<and> options_of (f w) = options_of (g w)"
    and "performs S ov P g"
  shows "performs S ov P f"
proof -
  obtain T where T: "T \<in> writes_of P" "\<forall>w. steady S ov w \<longrightarrow> elems (g w) = T (elems w) \<and> options_of (g w) = ov"
    using assms(2) unfolding performs_def by blast
  have "elems (f w) = T (elems w) \<and> options_of (f w) = ov" if "steady S ov w" for w
    using assms(1) [OF that] T(2) that by simp
  then show ?thesis unfolding performs_def using T(1) by blast
qed

lemma performs_fold:
  assumes "closed S P"
  shows "(\<And>x. x \<in> set xs \<Longrightarrow> performs S ov P (f x)) \<Longrightarrow> performs S ov P (fold f xs)"
proof (induction xs)
  case Nil
  then show ?case by (simp add: performs_same)
next
  case (Cons x xs)
  have "performs S ov P (\<lambda>w. fold f xs (f x w))"
    by (rule performs_comp [OF assms]) (use Cons in auto)
  then show ?case by (simp add: comp_def)
qed

lemma forEach_unfold:
  "fst (f x w) = Inr () \<Longrightarrow> forEach f (x # xs) w = forEach f xs (snd (f x w))"
proof -
  assume "fst (f x w) = Inr ()"
  then obtain w' where "f x w = (Inr (), w')" by (cases "f x w") auto
  then show ?thesis by simp
qed

lemma forEach_succeeds:
  assumes "closed S P"
    and "\<And>x. x \<in> set xs \<Longrightarrow> succeeds S ov (f x)"
    and "\<And>x. x \<in> set xs \<Longrightarrow> performs S ov P (\<lambda>w. snd (f x w))"
  shows "succeeds S ov (forEach f xs)"
  unfolding succeeds_def
proof (intro allI impI)
  fix w assume "steady S ov w"
  then show "fst (forEach f xs w) = Inr ()"
    using assms(2,3)
  proof (induction xs arbitrary: w)
    case Nil
    then show ?case by simp
  next
    case (Cons x xs)
    have ok: "fst (f x w) = Inr ()" using Cons.prems(1,2) by (simp add: succeeds_def)
    have "steady S ov (snd (f x w))"
      by (rule performs_steady [OF assms(1) _ Cons.prems(1)]) (simp add: Cons.prems(3))
    then have "fst (forEach f xs (snd (f x w))) = Inr ()"
      using Cons.IH Cons.prems(2,3) by simp
    then show ?case by (simp only: forEach_unfold [where f = f and x = x and w = w, OF ok])
  qed
qed

lemma forEach_performs:
  assumes "closed S P"
    and "\<And>x. x \<in> set xs \<Longrightarrow> succeeds S ov (f x)"
    and "\<And>x. x \<in> set xs \<Longrightarrow> performs S ov P (\<lambda>w. snd (f x w))"
  shows "performs S ov P (\<lambda>w. snd (forEach f xs w))"
  using assms(2,3)
proof (induction xs)
  case Nil
  then show ?case by (simp add: performs_same)
next
  case (Cons x xs)
  have "performs S ov P (\<lambda>w. snd (forEach f xs (snd (f x w))))"
    by (rule performs_comp [OF assms(1), where g = "\<lambda>w. snd (forEach f xs w)"]) (use Cons in auto)
  moreover have "elems (snd (forEach f (x # xs) w)) = elems (snd (forEach f xs (snd (f x w)))) \<and>
                 options_of (snd (forEach f (x # xs) w)) = options_of (snd (forEach f xs (snd (f x w))))"
    if "steady S ov w" for w
  proof -
    have "fst (f x w) = Inr ()" using Cons.prems(1) that by (simp add: succeeds_def)
    then show ?thesis by (simp only: forEach_unfold [where f = f and x = x and w = w])
  qed
  ultimately show ?case by (rule performs_cong [rotated])
qed

subsection \<open>The writes of one subscription\<close>

lemma performs_one:
  "(el, g) \<in> P \<Longrightarrow>
   (\<And>w. steady S ov w \<Longrightarrow> elems (f w) = upd el g (elems w) \<and> options_of (f w) = ov) \<Longrightarrow>
   performs S ov P f"
  unfolding performs_def
  using writes_of.another [OF _ writes_of.nothing, of el g P] by auto

lemma on_next_advance: "fst (on_next v ob w) = advance v ob"
  by (cases ob) auto

lemma gens_advance: "gens opts vs (advance v ob) = gens opts vs ob"
  by (cases ob) auto

lemma settled_advance: "settled S ov opts (advance v ob) = settled S ov opts ob"
  by (cases ob) auto

lemma apply_to_settled:
  assumes "steady S ov w" and "\<And>page e. S page \<Longrightarrow> h v (ov page el) e = h v (opts el) e"
  shows "apply_to h v el w = h v (opts el) (elems w el)"
  using assms by (simp add: apply_to_def steady_def)

lemma on_next_performs:
  assumes "settled S ov opts ob" and "v \<in> vs" and "closed S (gens opts vs ob)"
  shows "performs S ov (gens opts vs ob) (\<lambda>w. snd (on_next v ob w))"
proof (cases ob)
  case (Tap sel prev els h)
  show ?thesis
  proof (cases "passes strict_eq prev v")
    case True
    have "performs S ov (gens opts vs ob) (fold (try_handler sel h v) els)"
    proof (rule performs_fold [OF assms(3)])
      fix el assume el: "el \<in> set els"
      have in_gens: "(el, \<lambda>e. fst (h v (opts el) e)) \<in> gens opts vs ob"
        using Tap el assms(2) by auto
      show "performs S ov (gens opts vs ob) (try_handler sel h v el)"
      proof (rule performs_one [OF in_gens])
        fix w assume w: "steady S ov w"
        have "apply_to h v el w = h v (opts el) (elems w el)"
          by (rule apply_to_settled [OF w]) (use assms(1) Tap el in simp)
        then show "elems (try_handler sel h v el w) = upd el (\<lambda>e. fst (h v (opts el) e)) (elems w) \<and>
                   options_of (try_handler sel h v el w) = ov"
          using w by (simp add: upd_def steady_def)
      qed
    qed
    then show ?thesis using Tap True by simp
  next
    case False
    then show ?thesis using Tap by (intro performs_same) simp
  qed
next
  case (Assign el f)
  have in_gens: "(el, \<lambda>e. fst (f v (opts el) e)) \<in> gens opts vs ob"
    using Assign assms(2) by auto
  show ?thesis
  proof (rule performs_one [OF in_gens])
    fix w assume w: "steady S ov w"
    have "apply_to f v el w = f v (opts el) (elems w el)"
      by (rule apply_to_settled [OF w]) (use assms(1) Assign in simp)
    then show "elems (snd (on_next v ob w)) = upd el (\<lambda>e. fst (f v (opts el) e)) (elems w) \<and>
               options_of (snd (on_next v ob w)) = ov"
      using w Assign by (simp add: upd_def steady_def)
  qed
qed

lemma replay_performs:
  assumes "closed S (gens opts vs ob)"
  shows "settled S ov opts ob \<Longrightarrow> set vs' \<subseteq> vs \<Longrightarrow>
         performs S ov (gens opts vs ob) (\<lambda>w. snd (fold (\<lambda>v (ob, w). on_next v ob w) vs' (ob, w)))"
  using assms
proof (induction vs' arbitrary: ob)
  case Nil
  then show ?case by (intro performs_same) simp
next
  case (Cons v vs')
  have step: "on_next v ob w = (advance v ob, snd (on_next v ob w))" for w
    using on_next_advance [of v ob w] by (simp add: prod_eq_iff)
  have 1: "performs S ov (gens opts vs ob) (\<lambda>w. snd (on_next v ob w))"
    by (rule on_next_performs) (use Cons.prems in auto)
  have 2: "performs S ov (gens opts vs ob) (\<lambda>w. snd (fold (\<lambda>v (ob, w). on_next v ob w) vs' (advance v ob, w)))"
    using Cons.IH [of "advance v ob"] Cons.prems by (simp add: gens_advance settled_advance)
  from performs_comp [OF Cons.prems(3) 1 2]
  show ?case by (simp add: step [symmetric])
qed

lemma subscribe_performs:
  assumes "settled S ov opts ob" and "closed S (gens opts (set (replay stream)) ob)"
  shows "performs S ov (gens opts (set (replay stream)) ob) (subscribe h stream ob)"
proof (rule performs_cong [OF _ replay_performs [OF assms(2,1) subset_refl]])
  fix w :: world
  show "elems (subscribe h stream ob w)
          = elems (snd (fold (\<lambda>v (ob, w). on_next v ob w) (replay stream) (ob, w))) \<and>
        options_of (subscribe h stream ob w)
          = options_of (snd (fold (\<lambda>v (ob, w). on_next v ob w) (replay stream) (ob, w)))"
    by (simp add: subscribe_def split: prod.splits)
qed


subsection \<open>The writes of one entry\<close>

lemma bindObservable_succeeds:
  assumes "\<And>page. S page \<Longrightarrow> q page sel \<noteq> None"
  shows "succeeds S ov (bindObservable (HTMLElement q) sub sel stream h)"
  unfolding succeeds_def
proof (intro allI impI)
  fix w assume "steady S ov w"
  then have "q (elems w) sel \<noteq> None" using assms by (simp add: steady_def)
  then show "fst (bindObservable (HTMLElement q) sub sel stream h w) = Inr ()"
    by (auto simp: bindObservable_def qAll_def)
qed

lemma bindObservable_performs:
  assumes q: "\<And>page. S page \<Longrightarrow> q page sel = Some els"
    and h: "\<And>page el v e. S page \<Longrightarrow> el \<in> set els \<Longrightarrow> h v (ov page el) e = h v (opts el) e"
    and c: "closed S Q"
    and sub: "{(el, \<lambda>e. fst (h v (opts el) e)) | el v. el \<in> set els \<and> v \<in> set (replay stream)} \<subseteq> Q"
  shows "performs S ov Q (\<lambda>w. snd (bindObservable (HTMLElement q) sub' sel stream h w))"
proof (cases "els = []")
  case True
  show ?thesis
  proof (rule performs_same)
    fix w assume "steady S ov w"
    then have "q (elems w) sel = Some []" using q True by (simp add: steady_def)
    then show "elems (snd (bindObservable (HTMLElement q) sub' sel stream h w)) = elems w \<and>
               options_of (snd (bindObservable (HTMLElement q) sub' sel stream h w)) = options_of w"
      by (simp add: bindObservable_def qAll_def)
  qed
next
  case False
  let ?ob = "Tap sel None els h"
  have g: "gens opts (set (replay stream)) ?ob \<subseteq> Q" using sub by simp
  have s: "settled S ov opts ?ob" using h by simp
  have "performs S ov (gens opts (set (replay stream)) ?ob) (subscribe sub' stream ?ob)"
    by (rule subscribe_performs [OF s closed_mono [OF c g]])
  then have p: "performs S ov Q (subscribe sub' stream ?ob)" by (rule performs_mono [OF g])
  show ?thesis
  proof (rule performs_cong [OF _ p])
    fix w assume "steady S ov w"
    then have "q (elems w) sel = Some els" using q by (simp add: steady_def)
    then have "snd (bindObservable (HTMLElement q) sub' sel stream h w) = subscribe sub' stream ?ob w"
      using False by (simp add: bindObservable_def qAll_def)
    then show "elems (snd (bindObservable (HTMLElement q) sub' sel stream h w)) = elems (subscribe sub' stream ?ob w) \<and>
               options_of (snd (bindObservable (HTMLElement q) sub' sel stream h w))
                 = options_of (subscribe sub' stream ?ob w)"
      by simp
  qed
qed

lemma bind_each_succeeds:
  assumes "\<And>page. S page \<Longrightarrow> q page (attr_selector attr (fst entry)) \<noteq> None"
  shows "succeeds S ov (bind_each (HTMLElement q) sub attr f entry)"
  unfolding succeeds_def
proof (intro allI impI)
  fix w assume "steady S ov w"
  then have "q (elems w) (attr_selector attr (fst entry)) \<noteq> None" using assms by (simp add: steady_def)
  then show "fst (bind_each (HTMLElement q) sub attr f entry w) = Inr ()"
    by (cases entry) (auto simp: bind_each_def qAll_def)
qed

lemma bind_each_performs:
  assumes q: "\<And>page. S page \<Longrightarrow> q page (attr_selector attr name) = Some els"
    and h: "\<And>page el v e. S page \<Longrightarrow> el \<in> set els \<Longrightarrow> f v (ov page el) e = f v (opts el) e"
    and c: "closed S Q"
    and sub: "{(el, \<lambda>e. fst (f v (opts el) e)) | el v. el \<in> set els \<and> v \<in> set (replay stream)} \<subseteq> Q"
  shows "performs S ov Q (\<lambda>w. snd (bind_each (HTMLElement q) sub' attr f (name, stream) w))"
proof (cases "els = []")
  case True
  show ?thesis
  proof (rule performs_same)
    fix w assume "steady S ov w"
    then have "q (elems w) (attr_selector attr name) = Some []" using q True by (simp add: steady_def)
    then show "elems (snd (bind_each (HTMLElement q) sub' attr f (name, stream) w)) = elems w \<and>
               options_of (snd (bind_each (HTMLElement q) sub' attr f (name, stream) w)) = options_of w"
      by (simp add: bind_each_def qAll_def)
  qed
next
  case False
  have p: "performs S ov Q (fold (\<lambda>el. subscribe sub' stream (Assign el f)) els)"
  proof (rule performs_fold [OF c])
    fix el assume el: "el \<in> set els"
    let ?ob = "Assign el f"
    have g: "gens opts (set (replay stream)) ?ob \<subseteq> Q" using sub el by auto
    have s: "settled S ov opts ?ob" using h el by simp
    have "performs S ov (gens opts (set (replay stream)) ?ob) (subscribe sub' stream ?ob)"
      by (rule subscribe_performs [OF s closed_mono [OF c g]])
    then show "performs S ov Q (subscribe sub' stream ?ob)" by (rule performs_mono [OF g])
  qed
  show ?thesis
  proof (rule performs_cong [OF _ p])
    fix w assume "steady S ov w"
    then have "q (elems w) (attr_selector attr name) = Some els" using q by (simp add: steady_def)
    then have "snd (bind_each (HTMLElement q) sub' attr f (name, stream) w)
                 = fold (\<lambda>el. subscribe sub' stream (Assign el f)) els w"
      using False by (simp add: bind_each_def qAll_def)
    then show "elems (snd (bind_each (HTMLElement q) sub' attr f (name, stream) w))
                 = elems (fold (\<lambda>el. subscribe sub' stream (Assign el f)) els w) \<and>
               options_of (snd (bind_each (HTMLElement q) sub' attr f (name, stream) w))
                 = options_of (fold (\<lambda>el. subscribe sub' stream (Assign el f)) els w)"
      by simp
  qed
qed

subsection \<open>The writes of one table\<close>

lemma entry_writes_mem:
  "(selector, stream) \<in> set entries \<Longrightarrow> q0 selector = Some els \<Longrightarrow>
   {(el, \<lambda>e. fst (h v (opts el) e)) | el v. el \<in> set els \<and> v \<in> set (replay stream)}
     \<subseteq> entry_writes q0 opts h entries"
  unfolding entry_writes_def by blast

lemma tap_table:
  assumes stab: "\<And>page sel. S page \<Longrightarrow> sel \<in> fst ` set entries \<Longrightarrow> q page sel = q0 sel"
    and valid: "\<forall>sel \<in> fst ` set entries. q0 sel \<noteq> None"
    and h: "\<And>page sel els el v e. S page \<Longrightarrow> sel \<in> fst ` set entries \<Longrightarrow> q0 sel = Some els \<Longrightarrow>
              el \<in> set els \<Longrightarrow> h v (ov page el) e = h v (opts el) e"
    and c: "closed S Q" and sub: "entry_writes q0 opts h entries \<subseteq> Q"
  shows "succeeds S ov (forEach (\<lambda>(selector, stream). bindObservable (HTMLElement q) sub' selector stream h) entries)"
    and "performs S ov Q (\<lambda>w. snd (forEach (\<lambda>(selector, stream).
            bindObservable (HTMLElement q) sub' selector stream h) entries w))"
proof -
  let ?f = "\<lambda>(selector, stream). bindObservable (HTMLElement q) sub' selector stream h"
  have s: "succeeds S ov (?f x)" if "x \<in> set entries" for x
  proof -
    obtain sel stream where x: "x = (sel, stream)" by (cases x)
    have in_set: "sel \<in> fst ` set entries" using that x by force
    have "succeeds S ov (bindObservable (HTMLElement q) sub' sel stream h)"
    proof (rule bindObservable_succeeds)
      show "q page sel \<noteq> None" if "S page" for page
        using stab [OF that in_set] valid in_set by auto
    qed
    then show ?thesis using x by simp
  qed
  have p: "performs S ov Q (\<lambda>w. snd (?f x w))" if "x \<in> set entries" for x
  proof -
    obtain sel stream where x: "x = (sel, stream)" by (cases x)
    have in_set: "sel \<in> fst ` set entries" using that x by force
    obtain els where els: "q0 sel = Some els" using valid in_set by auto
    have "performs S ov Q (\<lambda>w. snd (bindObservable (HTMLElement q) sub' sel stream h w))"
    proof (rule bindObservable_performs [where els = els and opts = opts, OF _ _ c])
      show "q page sel = Some els" if "S page" for page using stab [OF that in_set] els by simp
      show "h v (ov page el) e = h v (opts el) e" if "S page" "el \<in> set els" for page el v e
        using h [OF that(1) in_set els that(2)] .
      show "{(el, \<lambda>e. fst (h v (opts el) e)) | el v. el \<in> set els \<and> v \<in> set (replay stream)} \<subseteq> Q"
        using entry_writes_mem [where ?q0.0 = q0 and selector = sel and stream = stream
            and entries = entries and els = els and h = h and opts = opts] that x els sub by blast
    qed
    then show ?thesis using x by simp
  qed
  show "succeeds S ov (forEach ?f entries)" by (rule forEach_succeeds [OF c]) (erule s, erule p)
  show "performs S ov Q (\<lambda>w. snd (forEach ?f entries w))" by (rule forEach_performs [OF c]) (erule s, erule p)
qed

lemma each_table:
  assumes stab: "\<And>page name. S page \<Longrightarrow> name \<in> fst ` set entries \<Longrightarrow>
                   q page (attr_selector attr name) = q0 (attr_selector attr name)"
    and valid: "\<forall>name \<in> fst ` set entries. q0 (attr_selector attr name) \<noteq> None"
    and h: "\<And>v o1 o2 e. f v o1 e = f v o2 e"
    and c: "closed S Q" and sub: "entry_writes q0 opts f (named attr entries) \<subseteq> Q"
  shows "succeeds S ov (forEach (bind_each (HTMLElement q) sub' attr f) entries)"
    and "performs S ov Q (\<lambda>w. snd (forEach (bind_each (HTMLElement q) sub' attr f) entries w))"
proof -
  have s: "succeeds S ov (bind_each (HTMLElement q) sub' attr f x)" if "x \<in> set entries" for x
  proof (rule bind_each_succeeds)
    have in_set: "fst x \<in> fst ` set entries" using that by force
    show "q page (attr_selector attr (fst x)) \<noteq> None" if "S page" for page
      using stab [OF that in_set] valid in_set by auto
  qed
  have p: "performs S ov Q (\<lambda>w. snd (bind_each (HTMLElement q) sub' attr f x w))" if "x \<in> set entries" for x
  proof -
    obtain name stream where x: "x = (name, stream)" by (cases x)
    have in_set: "name \<in> fst ` set entries" using that x by force
    obtain els where els: "q0 (attr_selector attr name) = Some els" using valid in_set by auto
    have m: "(attr_selector attr name, stream) \<in> set (named attr entries)"
      using that x unfolding named_def by force
    have "performs S ov Q (\<lambda>w. snd (bind_each (HTMLElement q) sub' attr f (name, stream) w))"
    proof (rule bind_each_performs [where els = els and opts = opts, OF _ _ c])
      show "q page (attr_selector attr name) = Some els" if "S page" for page
        using stab [OF that in_set] els by simp
      show "f v (ov page el) e = f v (opts el) e" for page el v e by (rule h)
      show "{(el, \<lambda>e. fst (f v (opts el) e)) | el v. el \<in> set els \<and> v \<in> set (replay stream)} \<subseteq> Q"
        using entry_writes_mem [where ?q0.0 = q0 and selector = "attr_selector attr name"
            and stream = stream and entries = "named attr entries" and els = els and h = f
            and opts = opts, OF m els] sub by blast
    qed
    then show ?thesis using x by simp
  qed
  show "succeeds S ov (forEach (bind_each (HTMLElement q) sub' attr f) entries)"
    by (rule forEach_succeeds [OF c]) (erule s, erule p)
  show "performs S ov Q (\<lambda>w. snd (forEach (bind_each (HTMLElement q) sub' attr f) entries w))"
    by (rule forEach_performs [OF c]) (erule s, erule p)
qed


subsection \<open>The writes of one kind of sink\<close>

lemma matched_mem: "sel \<in> set sels \<Longrightarrow> q sel = Some els \<Longrightarrow> set els \<subseteq> set (matched q sels)"
  by (force simp: matched_def)

lemma text_step:
  assumes stab: "\<And>page sel. S page \<Longrightarrow> sel \<in> set (selectors b) \<Longrightarrow> q page sel = q0 sel"
    and valid: "\<forall>sel \<in> set (selectors b). q0 sel \<noteq> None"
    and c: "closed S (footprint q0 opts b KText)"
  shows "succeeds S ov (bind_text (HTMLElement q) sub b)"
    and "performs S ov (footprint q0 opts b KText) (\<lambda>w. snd (bind_text (HTMLElement q) sub b w))"
proof -
  let ?es = "table_of (b_text b)"
  have in_sel: "sel \<in> set (selectors b)" if "sel \<in> fst ` set ?es" for sel
    using that by (auto simp: selectors_def)
  have eq: "bind_text (HTMLElement q) sub b
      = forEach (\<lambda>(selector, stream). bindObservable (HTMLElement q) sub selector stream text_handler) ?es"
    by (auto simp: bind_text_def table_of_def fun_eq_iff split: option.splits)
  note t = tap_table [where S = S and q = q and ?q0.0 = q0 and entries = ?es and h = text_handler
      and ov = ov and opts = opts and Q = "footprint q0 opts b KText" and sub' = sub]
  have 1: "q page sel = q0 sel" if "S page" "sel \<in> fst ` set ?es" for page sel
    using stab [OF that(1) in_sel [OF that(2)]] .
  have 2: "\<forall>sel \<in> fst ` set ?es. q0 sel \<noteq> None" using valid in_sel by blast
  have 3: "text_handler v (ov page el) e = text_handler v (opts el) e" for page el v e
    by (simp add: text_handler_def)
  have 4: "entry_writes q0 opts text_handler ?es \<subseteq> footprint q0 opts b KText" by simp
  show "succeeds S ov (bind_text (HTMLElement q) sub b)"
    unfolding eq by (rule t(1) [OF 1 2 3 c 4])
  show "performs S ov (footprint q0 opts b KText) (\<lambda>w. snd (bind_text (HTMLElement q) sub b w))"
    unfolding eq by (rule t(2) [OF 1 2 3 c 4])
qed

lemma value_step:
  assumes stab: "\<And>page sel. S page \<Longrightarrow> sel \<in> set (selectors b) \<Longrightarrow> q page sel = q0 sel"
    and valid: "\<forall>sel \<in> set (selectors b). q0 sel \<noteq> None"
    and ovs: "\<And>page el. S page \<Longrightarrow> el \<in> set (value_targets q0 b) \<Longrightarrow> ov page el = opts el"
    and c: "closed S (footprint q0 opts b KValue)"
  shows "succeeds S ov (bind_value (HTMLElement q) sub b)"
    and "performs S ov (footprint q0 opts b KValue) (\<lambda>w. snd (bind_value (HTMLElement q) sub b w))"
proof -
  let ?es = "table_of (b_value b)"
  have in_sel: "sel \<in> set (selectors b)" if "sel \<in> fst ` set ?es" for sel
    using that by (auto simp: selectors_def)
  have eq: "bind_value (HTMLElement q) sub b
      = forEach (\<lambda>(selector, stream). bindObservable (HTMLElement q) sub selector stream value_handler) ?es"
    by (auto simp: bind_value_def table_of_def fun_eq_iff split: option.splits)
  note t = tap_table [where S = S and q = q and ?q0.0 = q0 and entries = ?es and h = value_handler
      and ov = ov and opts = opts and Q = "footprint q0 opts b KValue" and sub' = sub]
  have 1: "q page sel = q0 sel" if "S page" "sel \<in> fst ` set ?es" for page sel
    using stab [OF that(1) in_sel [OF that(2)]] .
  have 2: "\<forall>sel \<in> fst ` set ?es. q0 sel \<noteq> None" using valid in_sel by blast
  have 3: "value_handler v (ov page el) e = value_handler v (opts el) e"
    if "S page" "sel \<in> fst ` set ?es" "q0 sel = Some els" "el \<in> set els" for page sel els el v e
  proof -
    have "sel \<in> set (map fst ?es)" using that(2) by simp
    then have "el \<in> set (value_targets q0 b)"
      using matched_mem [of sel "map fst ?es" q0 els] that(3,4) by (auto simp: value_targets_def)
    then show ?thesis using ovs [OF that(1)] by simp
  qed
  have 4: "entry_writes q0 opts value_handler ?es \<subseteq> footprint q0 opts b KValue" by simp
  show "succeeds S ov (bind_value (HTMLElement q) sub b)"
    unfolding eq by (rule t(1) [OF 1 2 3 c 4])
  show "performs S ov (footprint q0 opts b KValue) (\<lambda>w. snd (bind_value (HTMLElement q) sub b w))"
    unfolding eq by (rule t(2) [OF 1 2 3 c 4])
qed

lemma html_step:
  assumes stab: "\<And>page sel. S page \<Longrightarrow> sel \<in> set (selectors b) \<Longrightarrow> q page sel = q0 sel"
    and valid: "\<forall>sel \<in> set (selectors b). q0 sel \<noteq> None"
    and c: "closed S (footprint q0 opts b KHtml)"
  shows "succeeds S ov (bind_html (HTMLElement q) sub b)"
    and "performs S ov (footprint q0 opts b KHtml) (\<lambda>w. snd (bind_html (HTMLElement q) sub b w))"
proof -
  let ?es = "table_of (b_html b)"
  have in_sel: "attr_selector ''data-html'' name \<in> set (selectors b)" if "name \<in> fst ` set ?es" for name
    using that by (force simp: selectors_def)
  have eq: "bind_html (HTMLElement q) sub b
      = forEach (bind_each (HTMLElement q) sub ''data-html'' html_assign) ?es"
    by (auto simp: bind_html_def table_of_def fun_eq_iff split: option.splits)
  note t = each_table [where S = S and q = q and ?q0.0 = q0 and entries = ?es and f = html_assign
      and attr = "''data-html''" and ov = ov and opts = opts and Q = "footprint q0 opts b KHtml"
      and sub' = sub]
  have 1: "q page (attr_selector ''data-html'' name) = q0 (attr_selector ''data-html'' name)"
    if "S page" "name \<in> fst ` set ?es" for page name
    using stab [OF that(1) in_sel [OF that(2)]] .
  have 2: "\<forall>name \<in> fst ` set ?es. q0 (attr_selector ''data-html'' name) \<noteq> None"
    using valid in_sel by blast
  have 3: "html_assign v o1 e = html_assign v o2 e" for v o1 o2 e by (simp add: html_assign_def)
  have 4: "entry_writes q0 opts html_assign (named ''data-html'' ?es) \<subseteq> footprint q0 opts b KHtml"
    by simp
  show "succeeds S ov (bind_html (HTMLElement q) sub b)"
    unfolding eq by (rule t(1) [OF 1 2 3 c 4])
  show "performs S ov (footprint q0 opts b KHtml) (\<lambda>w. snd (bind_html (HTMLElement q) sub b w))"
    unfolding eq by (rule t(2) [OF 1 2 3 c 4])
qed

lemma className_step:
  assumes stab: "\<And>page sel. S page \<Longrightarrow> sel \<in> set (selectors b) \<Longrightarrow> q page sel = q0 sel"
    and valid: "\<forall>sel \<in> set (selectors b). q0 sel \<noteq> None"
    and c: "closed S (footprint q0 opts b KClassName)"
  shows "succeeds S ov (bind_className (HTMLElement q) sub b)"
    and "performs S ov (footprint q0 opts b KClassName) (\<lambda>w. snd (bind_className (HTMLElement q) sub b w))"
proof -
  let ?es = "table_of (b_className b)"
  have in_sel: "attr_selector ''data-class'' name \<in> set (selectors b)" if "name \<in> fst ` set ?es" for name
    using that by (force simp: selectors_def)
  have eq: "bind_className (HTMLElement q) sub b
      = forEach (bind_each (HTMLElement q) sub ''data-class'' className_assign) ?es"
    by (auto simp: bind_className_def table_of_def fun_eq_iff split: option.splits)
  note t = each_table [where S = S and q = q and ?q0.0 = q0 and entries = ?es and f = className_assign
      and attr = "''data-class''" and ov = ov and opts = opts and Q = "footprint q0 opts b KClassName"
      and sub' = sub]
  have 1: "q page (attr_selector ''data-class'' name) = q0 (attr_selector ''data-class'' name)"
    if "S page" "name \<in> fst ` set ?es" for page name
    using stab [OF that(1) in_sel [OF that(2)]] .
  have 2: "\<forall>name \<in> fst ` set ?es. q0 (attr_selector ''data-class'' name) \<noteq> None"
    using valid in_sel by blast
  have 3: "className_assign v o1 e = className_assign v o2 e" for v o1 o2 e
    by (simp add: className_assign_def)
  have 4: "entry_writes q0 opts className_assign (named ''data-class'' ?es) \<subseteq> footprint q0 opts b KClassName"
    by simp
  show "succeeds S ov (bind_className (HTMLElement q) sub b)"
    unfolding eq by (rule t(1) [OF 1 2 3 c 4])
  show "performs S ov (footprint q0 opts b KClassName) (\<lambda>w. snd (bind_className (HTMLElement q) sub b w))"
    unfolding eq by (rule t(2) [OF 1 2 3 c 4])
qed

lemma disabled_step:
  assumes stab: "\<And>page sel. S page \<Longrightarrow> sel \<in> set (selectors b) \<Longrightarrow> q page sel = q0 sel"
    and valid: "\<forall>sel \<in> set (selectors b). q0 sel \<noteq> None"
    and c: "closed S (footprint q0 opts b KDisabled)"
  shows "succeeds S ov (bind_disabled (HTMLElement q) sub b)"
    and "performs S ov (footprint q0 opts b KDisabled) (\<lambda>w. snd (bind_disabled (HTMLElement q) sub b w))"
proof -
  let ?es = "table_of (b_disabled b)"
  have in_sel: "attr_selector ''data-disabled'' name \<in> set (selectors b)" if "name \<in> fst ` set ?es" for name
    using that by (force simp: selectors_def)
  have eq: "bind_disabled (HTMLElement q) sub b
      = forEach (bind_each (HTMLElement q) sub ''data-disabled'' disabled_assign) ?es"
    by (auto simp: bind_disabled_def table_of_def fun_eq_iff split: option.splits)
  note t = each_table [where S = S and q = q and ?q0.0 = q0 and entries = ?es and f = disabled_assign
      and attr = "''data-disabled''" and ov = ov and opts = opts and Q = "footprint q0 opts b KDisabled"
      and sub' = sub]
  have 1: "q page (attr_selector ''data-disabled'' name) = q0 (attr_selector ''data-disabled'' name)"
    if "S page" "name \<in> fst ` set ?es" for page name
    using stab [OF that(1) in_sel [OF that(2)]] .
  have 2: "\<forall>name \<in> fst ` set ?es. q0 (attr_selector ''data-disabled'' name) \<noteq> None"
    using valid in_sel by blast
  have 3: "disabled_assign v o1 e = disabled_assign v o2 e" for v o1 o2 e
    by (simp add: disabled_assign_def)
  have 4: "entry_writes q0 opts disabled_assign (named ''data-disabled'' ?es) \<subseteq> footprint q0 opts b KDisabled"
    by simp
  show "succeeds S ov (bind_disabled (HTMLElement q) sub b)"
    unfolding eq by (rule t(1) [OF 1 2 3 c 4])
  show "performs S ov (footprint q0 opts b KDisabled) (\<lambda>w. snd (bind_disabled (HTMLElement q) sub b w))"
    unfolding eq by (rule t(2) [OF 1 2 3 c 4])
qed

lemma data_step:
  assumes stab: "\<And>page sel. S page \<Longrightarrow> sel \<in> set (selectors b) \<Longrightarrow> q page sel = q0 sel"
    and valid: "\<forall>sel \<in> set (selectors b). q0 sel \<noteq> None"
    and c: "closed S (footprint q0 opts b KData)"
  shows "succeeds S ov (bind_data (HTMLElement q) sub b)"
    and "performs S ov (footprint q0 opts b KData) (\<lambda>w. snd (bind_data (HTMLElement q) sub b w))"
proof -
  let ?Q = "footprint q0 opts b KData"
  have entry: "succeeds S ov (bind_data_entry (HTMLElement q) sub key x) \<and>
               performs S ov ?Q (\<lambda>w. snd (bind_data_entry (HTMLElement q) sub key x w))"
    if kt: "(key, table) \<in> set (b_other b)" and st: "startsWith key ''data-''" and x: "x \<in> set table"
    for key table x
  proof -
    obtain selector sl where px: "x = (selector, sl)" by (cases x)
    show ?thesis
    proof (cases sl)
      case NotObservable
      have "performs S ov ?Q (\<lambda>w. snd (Inr (), w))" by (rule performs_same) simp
      then show ?thesis using px NotObservable by (simp add: bind_data_entry_def succeeds_def)
    next
      case (IsObservable stream)
      have "(selector, IsObservable stream) \<in> set table" using x px IsObservable by simp
      then have m: "(key, selector, stream) \<in> set (data_entries b)"
        using kt st by (intro data_entries_mem)
      then have "selector \<in> (\<lambda>(key, selector, _). selector) ` set (data_entries b)"
        by (intro image_eqI [where x = "(key, selector, stream)"]) simp_all
      then have in_sel: "selector \<in> set (selectors b)" by (simp add: selectors_def)
      obtain els where els: "q0 selector = Some els" using valid in_sel by auto
      have e: "bind_data_entry (HTMLElement q) sub key x
          = bindObservable (HTMLElement q) sub selector stream (data_handler key)"
        using px IsObservable by (simp add: bind_data_entry_def fun_eq_iff)
      have s: "succeeds S ov (bindObservable (HTMLElement q) sub selector stream (data_handler key))"
      proof (rule bindObservable_succeeds)
        show "q page selector \<noteq> None" if "S page" for page
          using stab [OF that in_sel] els by simp
      qed
      have p: "performs S ov ?Q (\<lambda>w. snd (bindObservable (HTMLElement q) sub selector stream (data_handler key) w))"
      proof (rule bindObservable_performs [where els = els and opts = opts, OF _ _ c])
        show "q page selector = Some els" if "S page" for page using stab [OF that in_sel] els by simp
        show "data_handler key v (ov page el) e = data_handler key v (opts el) e" for page el v e
          by (simp add: data_handler_def)
        have "{(el, \<lambda>e. fst (data_handler key v (opts el) e)) | el v.
                 el \<in> set els \<and> v \<in> set (replay stream)}
                \<subseteq> entry_writes q0 opts (data_handler key) [(selector, stream)]"
          by (rule entry_writes_mem [where ?q0.0 = q0 and selector = selector and stream = stream
                and entries = "[(selector, stream)]" and els = els and h = "data_handler key"
                and opts = opts, OF _ els]) simp
        also have "\<dots> \<subseteq> ?Q" using m by auto
        finally show "{(el, \<lambda>e. fst (data_handler key v (opts el) e)) | el v.
                 el \<in> set els \<and> v \<in> set (replay stream)} \<subseteq> ?Q" .
      qed
      show ?thesis unfolding e using s p by simp
    qed
  qed
  have table: "succeeds S ov (bind_data_table (HTMLElement q) sub x) \<and>
               performs S ov ?Q (\<lambda>w. snd (bind_data_table (HTMLElement q) sub x w))"
    if "x \<in> set (b_other b)" for x
  proof -
    obtain key table where px: "x = (key, table)" by (cases x)
    show ?thesis
    proof (cases "startsWith key ''data-''")
      case True
      have e: "bind_data_table (HTMLElement q) sub x = forEach (bind_data_entry (HTMLElement q) sub key) table"
        using px True by (simp add: bind_data_table_def fun_eq_iff)
      have kt: "(key, table) \<in> set (b_other b)" using that px by simp
      have 1: "succeeds S ov (forEach (bind_data_entry (HTMLElement q) sub key) table)"
        by (rule forEach_succeeds [OF c]) (use entry [OF kt True] in blast)+
      have 2: "performs S ov ?Q (\<lambda>w. snd (forEach (bind_data_entry (HTMLElement q) sub key) table w))"
        by (rule forEach_performs [OF c]) (use entry [OF kt True] in blast)+
      show ?thesis unfolding e using 1 2 by simp
    next
      case False
      have "performs S ov ?Q (\<lambda>w. snd (Inr (), w))" by (rule performs_same) simp
      then show ?thesis using px False by (simp add: bind_data_table_def succeeds_def)
    qed
  qed
  have eq: "bind_data (HTMLElement q) sub b = forEach (bind_data_table (HTMLElement q) sub) (b_other b)"
    by (simp add: bind_data_def fun_eq_iff)
  show "succeeds S ov (bind_data (HTMLElement q) sub b)"
    unfolding eq by (rule forEach_succeeds [OF c]) (use table in blast)+
  show "performs S ov ?Q (\<lambda>w. snd (bind_data (HTMLElement q) sub b w))"
    unfolding eq by (rule forEach_performs [OF c]) (use table in blast)+
qed

lemma kind_step:
  assumes stab: "\<And>page sel. S page \<Longrightarrow> sel \<in> set (selectors b) \<Longrightarrow> q page sel = q0 sel"
    and valid: "\<forall>sel \<in> set (selectors b). q0 sel \<noteq> None"
    and ovs: "\<And>page el. S page \<Longrightarrow> el \<in> set (value_targets q0 b) \<Longrightarrow> ov page el = opts el"
    and c: "closed S (footprint q0 opts b k)"
  shows "succeeds S ov (bind_kind k (HTMLElement q) sub b)"
    and "performs S ov (footprint q0 opts b k) (\<lambda>w. snd (bind_kind k (HTMLElement q) sub b w))"
proof -
  have "succeeds S ov (bind_kind k (HTMLElement q) sub b) \<and>
        performs S ov (footprint q0 opts b k) (\<lambda>w. snd (bind_kind k (HTMLElement q) sub b w))"
  proof (cases k)
    case KText
    show ?thesis unfolding KText bind_kind.simps
      using text_step [where S = S and q = q and ?q0.0 = q0 and b = b and opts = opts and ov = ov
          and sub = sub, OF stab valid c [unfolded KText]] by blast
  next
    case KValue
    show ?thesis unfolding KValue bind_kind.simps
      using value_step [where S = S and q = q and ?q0.0 = q0 and b = b and opts = opts and ov = ov
          and sub = sub, OF stab valid ovs c [unfolded KValue]] by blast
  next
    case KHtml
    show ?thesis unfolding KHtml bind_kind.simps
      using html_step [where S = S and q = q and ?q0.0 = q0 and b = b and opts = opts and ov = ov
          and sub = sub, OF stab valid c [unfolded KHtml]] by blast
  next
    case KClassName
    show ?thesis unfolding KClassName bind_kind.simps
      using className_step [where S = S and q = q and ?q0.0 = q0 and b = b and opts = opts and ov = ov
          and sub = sub, OF stab valid c [unfolded KClassName]] by blast
  next
    case KDisabled
    show ?thesis unfolding KDisabled bind_kind.simps
      using disabled_step [where S = S and q = q and ?q0.0 = q0 and b = b and opts = opts and ov = ov
          and sub = sub, OF stab valid c [unfolded KDisabled]] by blast
  next
    case KData
    show ?thesis unfolding KData bind_kind.simps
      using data_step [where S = S and q = q and ?q0.0 = q0 and b = b and opts = opts and ov = ov
          and sub = sub, OF stab valid c [unfolded KData]] by blast
  qed
  then show "succeeds S ov (bind_kind k (HTMLElement q) sub b)"
    and "performs S ov (footprint q0 opts b k) (\<lambda>w. snd (bind_kind k (HTMLElement q) sub b w))"
    by simp_all
qed


subsection \<open>Writes of different tables\<close>

lemma data_key_lower:
  assumes "startsWith key ''data-''"
  shows "map ascii_lower key \<noteq> ''class''" and "map ascii_lower key \<noteq> ''disabled''"
    and "map ascii_lower key \<noteq> ''value''"
    and "key \<noteq> ''class''" and "key \<noteq> ''disabled''" and "key \<noteq> ''value''"
proof -
  have k: "take (length ''data-'') key = ''data-''" using assms unfolding startsWith_def .
  then have "map ascii_lower (take (length ''data-'') key) = map ascii_lower ''data-''" by simp
  then have t: "take (length ''data-'') (map ascii_lower key) = ''data-''"
    by (simp add: take_map ascii_lower_def)
  show "map ascii_lower key \<noteq> ''class''"
  proof
    assume "map ascii_lower key = ''class''"
    then show False using t by simp
  qed
  show "map ascii_lower key \<noteq> ''disabled''"
  proof
    assume "map ascii_lower key = ''disabled''"
    then show False using t by simp
  qed
  show "map ascii_lower key \<noteq> ''value''"
  proof
    assume "map ascii_lower key = ''value''"
    then show False using t by simp
  qed
  show "key \<noteq> ''class''"
  proof
    assume "key = ''class''"
    then show False using k by simp
  qed
  show "key \<noteq> ''disabled''"
  proof
    assume "key = ''disabled''"
    then show False using k by simp
  qed
  show "key \<noteq> ''value''"
  proof
    assume "key = ''value''"
    then show False using k by simp
  qed
qed

lemmas write_defs = text_handler_def value_handler_def data_handler_def html_assign_def
  className_assign_def disabled_assign_def set_textContent_def set_innerHTML_def set_value_def
  set_className_def set_disabled_def put_attr_def put_prop_def removeAttribute_def setAttribute_def

text \<open>
  Text and markup commute with the value on every element but a \<^verbatim>\<open><select>\<close>, where
  they take the selection away.
\<close>

lemma text_value:
  "tag e \<noteq> Select \<Longrightarrow>
   fst (text_handler v o1 (fst (value_handler v' o2 e))) = fst (value_handler v' o2 (fst (text_handler v o1 e)))"
  by (simp add: write_defs split: tag.splits input_mode.splits)

lemma text_class:
  "fst (text_handler v o1 (fst (className_assign v' o2 e))) = fst (className_assign v' o2 (fst (text_handler v o1 e)))"
  by (simp add: write_defs)

lemma text_disabled:
  "fst (text_handler v o1 (fst (disabled_assign v' o2 e))) = fst (disabled_assign v' o2 (fst (text_handler v o1 e)))"
  by (simp add: write_defs)

lemma text_data:
  "fst (text_handler v o1 (fst (data_handler k v' o2 e))) = fst (data_handler k v' o2 (fst (text_handler v o1 e)))"
  by (simp add: write_defs)

lemma value_html:
  "tag e \<noteq> Select \<Longrightarrow>
   fst (value_handler v o1 (fst (html_assign v' o2 e))) = fst (html_assign v' o2 (fst (value_handler v o1 e)))"
  by (simp add: write_defs split: tag.splits input_mode.splits)

lemma value_class:
  "fst (value_handler v o1 (fst (className_assign v' o2 e))) = fst (className_assign v' o2 (fst (value_handler v o1 e)))"
  by (simp add: write_defs fun_upd_twist split: tag.splits input_mode.splits)

lemma value_disabled:
  "fst (value_handler v o1 (fst (disabled_assign v' o2 e))) = fst (disabled_assign v' o2 (fst (value_handler v o1 e)))"
  by (simp add: write_defs fun_upd_twist split: tag.splits input_mode.splits)

lemma value_data:
  "startsWith k ''data-'' \<Longrightarrow>
   fst (value_handler v o1 (fst (data_handler k v' o2 e))) = fst (data_handler k v' o2 (fst (value_handler v o1 e)))"
  using data_key_lower(3,6) [of k]
  by (auto simp: write_defs fun_upd_twist split: tag.splits input_mode.splits)

lemma html_class:
  "fst (html_assign v o1 (fst (className_assign v' o2 e))) = fst (className_assign v' o2 (fst (html_assign v o1 e)))"
  by (simp add: write_defs)

lemma html_disabled:
  "fst (html_assign v o1 (fst (disabled_assign v' o2 e))) = fst (disabled_assign v' o2 (fst (html_assign v o1 e)))"
  by (simp add: write_defs)

lemma html_data:
  "fst (html_assign v o1 (fst (data_handler k v' o2 e))) = fst (data_handler k v' o2 (fst (html_assign v o1 e)))"
  by (simp add: write_defs)

lemma class_disabled:
  "fst (className_assign v o1 (fst (disabled_assign v' o2 e))) = fst (disabled_assign v' o2 (fst (className_assign v o1 e)))"
  by (simp add: write_defs fun_upd_twist)

lemma class_data:
  "startsWith k ''data-'' \<Longrightarrow>
   fst (className_assign v o1 (fst (data_handler k v' o2 e))) = fst (data_handler k v' o2 (fst (className_assign v o1 e)))"
  using data_key_lower(1,4) [of k] by (auto simp: write_defs fun_upd_twist)

lemma disabled_data:
  "startsWith k ''data-'' \<Longrightarrow>
   fst (disabled_assign v o1 (fst (data_handler k v' o2 e))) = fst (data_handler k v' o2 (fst (disabled_assign v o1 e)))"
  using data_key_lower(2,5) [of k] by (auto simp: write_defs fun_upd_twist)

lemma apart_sym: "apart P Q \<Longrightarrow> apart Q P"
  unfolding apart_def by fastforce

lemma apart_disjoint:
  "(\<And>el g el' g'. (el, g) \<in> P \<Longrightarrow> (el', g') \<in> Q \<Longrightarrow> el \<noteq> el') \<Longrightarrow> apart P Q"
  unfolding apart_def by blast

lemma apart_entries:
  assumes "\<And>v v' o1 o2 e. fst (h v o1 (fst (h' v' o2 e))) = fst (h' v' o2 (fst (h v o1 e)))"
  shows "apart (entry_writes q opts h es) (entry_writes q opts h' es')"
  unfolding apart_def entry_writes_def using assms by auto

lemma apart_UN: "(\<And>x. x \<in> A \<Longrightarrow> apart P (Q x)) \<Longrightarrow> apart P (\<Union>x \<in> A. Q x)"
  unfolding apart_def by blast

lemma data_entries_key: "(key, selector, stream) \<in> set (data_entries b) \<Longrightarrow> startsWith key ''data-''"
  unfolding data_entries_def by (auto split: if_splits slot.splits)

lemma apart_data:
  assumes "\<And>k v v' o1 o2 e. startsWith k ''data-'' \<Longrightarrow>
             fst (h v o1 (fst (data_handler k v' o2 e))) = fst (data_handler k v' o2 (fst (h v o1 e)))"
  shows "apart (entry_writes q opts h es) (footprint q opts b KData)"
  unfolding footprint.simps
proof (rule apart_UN)
  fix x assume x: "x \<in> set (data_entries b)"
  obtain key selector stream where p: "x = (key, selector, stream)" by (cases x)
  have k: "startsWith key ''data-''" using x p data_entries_key by blast
  have "apart (entry_writes q opts h es) (entry_writes q opts (data_handler key) [(selector, stream)])"
    by (rule apart_entries) (rule assms [OF k])
  then show "apart (entry_writes q opts h es)
               (case x of (key, selector, stream) \<Rightarrow> entry_writes q opts (data_handler key) [(selector, stream)])"
    using p by simp
qed

lemma entry_writes_targets:
  "(el, g) \<in> entry_writes q opts h es \<Longrightarrow> el \<in> set (matched q (map fst es))"
  unfolding entry_writes_def matched_def by force

lemma named_fst: "map fst (named attr es) = map (\<lambda>(name, _). attr_selector attr name) es"
  unfolding named_def by (induction es) auto

lemma footprints_apart_ordered:
  assumes "set (text_targets q b) \<inter> set (html_targets q b) = {}"
    and "set (value_targets q b) \<inter> (set (text_targets q b) \<union> set (html_targets q b)) = {}"
  shows "apart (footprint q o' b KText) (footprint q o' b KValue)"
    "apart (footprint q o' b KText) (footprint q o' b KHtml)"
    "apart (footprint q o' b KText) (footprint q o' b KClassName)"
    "apart (footprint q o' b KText) (footprint q o' b KDisabled)"
    "apart (footprint q o' b KText) (footprint q o' b KData)"
    "apart (footprint q o' b KValue) (footprint q o' b KHtml)"
    "apart (footprint q o' b KValue) (footprint q o' b KClassName)"
    "apart (footprint q o' b KValue) (footprint q o' b KDisabled)"
    "apart (footprint q o' b KValue) (footprint q o' b KData)"
    "apart (footprint q o' b KHtml) (footprint q o' b KClassName)"
    "apart (footprint q o' b KHtml) (footprint q o' b KDisabled)"
    "apart (footprint q o' b KHtml) (footprint q o' b KData)"
    "apart (footprint q o' b KClassName) (footprint q o' b KDisabled)"
    "apart (footprint q o' b KClassName) (footprint q o' b KData)"
    "apart (footprint q o' b KDisabled) (footprint q o' b KData)"
proof -
  show "apart (footprint q o' b KText) (footprint q o' b KValue)"
  proof (rule apart_disjoint)
    fix el g el' g'
    assume "(el, g) \<in> footprint q o' b KText" "(el', g') \<in> footprint q o' b KValue"
    then have "el \<in> set (text_targets q b)" "el' \<in> set (value_targets q b)"
      using entry_writes_targets [of el g q o' text_handler "table_of (b_text b)"]
        entry_writes_targets [of el' g' q o' value_handler "table_of (b_value b)"]
      by (simp_all add: text_targets_def value_targets_def)
    then show "el \<noteq> el'" using assms(2) by auto
  qed
  show "apart (footprint q o' b KText) (footprint q o' b KHtml)"
  proof (rule apart_disjoint)
    fix el g el' g'
    assume "(el, g) \<in> footprint q o' b KText" "(el', g') \<in> footprint q o' b KHtml"
    then have "el \<in> set (text_targets q b)" "el' \<in> set (html_targets q b)"
      using entry_writes_targets [of el g q o' text_handler "table_of (b_text b)"]
        entry_writes_targets [of el' g' q o' html_assign "named ''data-html'' (table_of (b_html b))"]
      by (simp_all add: text_targets_def html_targets_def named_fst)
    then show "el \<noteq> el'" using assms(1) by auto
  qed
  show "apart (footprint q o' b KText) (footprint q o' b KClassName)"
    unfolding footprint.simps by (rule apart_entries) (rule text_class)
  show "apart (footprint q o' b KText) (footprint q o' b KDisabled)"
    unfolding footprint.simps by (rule apart_entries) (rule text_disabled)
  show "apart (footprint q o' b KText) (footprint q o' b KData)"
    unfolding footprint.simps(1) by (rule apart_data) (rule text_data)
  show "apart (footprint q o' b KValue) (footprint q o' b KHtml)"
  proof (rule apart_disjoint)
    fix el g el' g'
    assume "(el, g) \<in> footprint q o' b KValue" "(el', g') \<in> footprint q o' b KHtml"
    then have "el \<in> set (value_targets q b)" "el' \<in> set (html_targets q b)"
      using entry_writes_targets [of el g q o' value_handler "table_of (b_value b)"]
        entry_writes_targets [of el' g' q o' html_assign "named ''data-html'' (table_of (b_html b))"]
      by (simp_all add: value_targets_def html_targets_def named_fst)
    then show "el \<noteq> el'" using assms(2) by auto
  qed
  show "apart (footprint q o' b KValue) (footprint q o' b KClassName)"
    unfolding footprint.simps by (rule apart_entries) (rule value_class)
  show "apart (footprint q o' b KValue) (footprint q o' b KDisabled)"
    unfolding footprint.simps by (rule apart_entries) (rule value_disabled)
  show "apart (footprint q o' b KValue) (footprint q o' b KData)"
    unfolding footprint.simps(2) by (rule apart_data) (rule value_data)
  show "apart (footprint q o' b KHtml) (footprint q o' b KClassName)"
    unfolding footprint.simps by (rule apart_entries) (rule html_class)
  show "apart (footprint q o' b KHtml) (footprint q o' b KDisabled)"
    unfolding footprint.simps by (rule apart_entries) (rule html_disabled)
  show "apart (footprint q o' b KHtml) (footprint q o' b KData)"
    unfolding footprint.simps(3) by (rule apart_data) (rule html_data)
  show "apart (footprint q o' b KClassName) (footprint q o' b KDisabled)"
    unfolding footprint.simps by (rule apart_entries) (rule class_disabled)
  show "apart (footprint q o' b KClassName) (footprint q o' b KData)"
    unfolding footprint.simps(4) by (rule apart_data) (rule class_data)
  show "apart (footprint q o' b KDisabled) (footprint q o' b KData)"
    unfolding footprint.simps(5) by (rule apart_data) (rule disabled_data)
qed

lemma footprints_apart:
  assumes "set (text_targets q b) \<inter> set (html_targets q b) = {}"
    and "set (value_targets q b) \<inter> (set (text_targets q b) \<union> set (html_targets q b)) = {}"
    and "k \<noteq> k'"
  shows "apart (footprint q o' b k) (footprint q o' b k')"
proof -
  note ord = footprints_apart_ordered [OF assms(1,2), of o']
  note rev = ord [THEN apart_sym]
  show ?thesis
    using assms(3) by (cases k; cases k'; simp del: footprint.simps add: ord rev)
qed


subsection \<open>Any order of the tables\<close>

lemma footprint_sub: "footprint q opts b k \<subseteq> sink_writes q opts b"
  unfolding sink_writes_def by blast

lemma forEach_elems:
  assumes c: "\<And>k. k \<in> set ks \<Longrightarrow> closed S (P k)"
    and s: "\<And>k. k \<in> set ks \<Longrightarrow> succeeds S ov (f k)"
    and T: "\<And>k. k \<in> set ks \<Longrightarrow> T k \<in> writes_of (P k)"
    and e: "\<And>k w. k \<in> set ks \<Longrightarrow> steady S ov w \<Longrightarrow>
              elems (snd (f k w)) = T k (elems w) \<and> options_of (snd (f k w)) = ov"
  shows "steady S ov w \<Longrightarrow>
         fst (forEach f ks w) = Inr () \<and> elems (snd (forEach f ks w)) = fold T ks (elems w) \<and>
         steady S ov (snd (forEach f ks w))"
  using assms
proof (induction ks arbitrary: w)
  case Nil
  then show ?case by simp
next
  case (Cons k ks)
  have ok: "fst (f k w) = Inr ()" using Cons.prems(1,3) by (simp add: succeeds_def)
  have st: "elems (snd (f k w)) = T k (elems w)" "options_of (snd (f k w)) = ov"
    using Cons.prems(5) [of k w] Cons.prems(1) by simp_all
  have "S (T k (elems w))"
    by (rule closed_writes [where P = "P k"]) (use Cons.prems in \<open>simp_all add: steady_def\<close>)
  then have w': "steady S ov (snd (f k w))" using st by (simp add: steady_def)
  have "fst (forEach f ks (snd (f k w))) = Inr () \<and>
        elems (snd (forEach f ks (snd (f k w)))) = fold T ks (elems (snd (f k w))) \<and>
        steady S ov (snd (forEach f ks (snd (f k w))))"
    by (rule Cons.IH [OF w']) (use Cons.prems in simp_all)
  then show ?case using st(1) by (simp only: forEach_unfold [where f = f and x = k and w = w, OF ok]) simp
qed

lemma sinks_in_any_order:
  assumes stab: "\<And>page sel. S page \<Longrightarrow> sel \<in> set (selectors b) \<Longrightarrow> q page sel = q0 sel"
    and valid: "\<forall>sel \<in> set (selectors b). q0 sel \<noteq> None"
    and ovs: "\<And>page el. S page \<Longrightarrow> el \<in> set (value_targets q0 b) \<Longrightarrow> ov page el = opts el"
    and c: "closed S (sink_writes q0 opts b)"
    and away: "set (text_targets q0 b) \<inter> set (html_targets q0 b) = {}"
      "set (value_targets q0 b) \<inter> (set (text_targets q0 b) \<union> set (html_targets q0 b)) = {}"
  shows "\<exists>T. (\<forall>ks w. steady S ov w \<longrightarrow>
                 fst (bind_sinks ks (HTMLElement q) sub b w) = Inr () \<and>
                 elems (snd (bind_sinks ks (HTMLElement q) sub b w)) = fold T ks (elems w) \<and>
                 steady S ov (snd (bind_sinks ks (HTMLElement q) sub b w))) \<and>
             (\<forall>w. steady S ov w \<longrightarrow>
                 elems (snd (bind_data (HTMLElement q) sub b w)) = T KData (elems w)) \<and>
             (\<forall>ks ks'. mset ks = mset ks' \<longrightarrow> fold T ks = fold T ks')"
proof -
  have ck: "closed S (footprint q0 opts b k)" for k
    by (rule closed_mono [OF c footprint_sub])
  note step = kind_step [where S = S and q = q and ?q0.0 = q0 and b = b and ov = ov and opts = opts
      and sub = sub, OF stab valid ovs ck]
  have "\<forall>k. \<exists>T. T \<in> writes_of (footprint q0 opts b k) \<and>
          (\<forall>w. steady S ov w \<longrightarrow> elems (snd (bind_kind k (HTMLElement q) sub b w)) = T (elems w) \<and>
                options_of (snd (bind_kind k (HTMLElement q) sub b w)) = ov)"
    using step(2) by (simp add: performs_def Bex_def)
  then obtain T where T: "\<And>k. T k \<in> writes_of (footprint q0 opts b k)"
    "\<And>k w. steady S ov w \<Longrightarrow> elems (snd (bind_kind k (HTMLElement q) sub b w)) = T k (elems w) \<and>
             options_of (snd (bind_kind k (HTMLElement q) sub b w)) = ov"
    by metis
  have run: "fst (bind_sinks ks (HTMLElement q) sub b w) = Inr () \<and>
             elems (snd (bind_sinks ks (HTMLElement q) sub b w)) = fold T ks (elems w) \<and>
             steady S ov (snd (bind_sinks ks (HTMLElement q) sub b w))"
    if "steady S ov w" for ks w
    unfolding bind_sinks_def
    by (rule forEach_elems [where P = "footprint q0 opts b" and S = S and ov = ov, OF ck step(1) T(1) T(2) that])
  have comm: "T k \<circ> T k' = T k' \<circ> T k" for k k'
  proof (cases "k = k'")
    case True
    then show ?thesis by simp
  next
    case False
    have "T k (T k' s) = T k' (T k s)" for s
      by (rule writes_commute [OF footprints_apart [OF away False] T(1) T(1)])
    then show ?thesis by (simp add: fun_eq_iff)
  qed
  have perm: "fold T ks = fold T ks'" if "mset ks = mset ks'" for ks ks'
    by (rule fold_multiset_equiv) (simp_all add: comm that)
  have data: "elems (snd (bind_data (HTMLElement q) sub b w)) = T KData (elems w)" if "steady S ov w" for w
    using T(2) [OF that, of KData] by simp
  show ?thesis using run perm data by blast
qed

lemma sinks_prefix:
  "bind_sinks [KText, KValue, KHtml, KClassName, KDisabled] root sub b w = (Inr (), w5) \<Longrightarrow>
   bind_sinks source_order root sub b w = bind_sinks [KData] root sub b w5"
  by (auto simp: bind_sinks_def source_order_def split: prod.splits sum.splits)

lemma bind_run:
  "bind (HTMLElement q) b w =
     (case bind_sinks [KText, KValue, KHtml, KClassName, KDisabled] (HTMLElement q) (handles w) b
             (w\<lparr>handles := Suc (handles w)\<rparr>) of
        (Inl e, w') \<Rightarrow> (Inl e, w')
      | (Inr _, w5) \<Rightarrow>
          (case bind_events (HTMLElement q) (handles w) b w5 of
             (Inl e, w') \<Rightarrow> (Inl e, w')
           | (Inr evs, w6) \<Rightarrow>
               (case bind_data (HTMLElement q) (handles w) b w6 of
                  (Inl e, w') \<Rightarrow> (Inl e, w')
                | (Inr _, w7) \<Rightarrow> (Inr \<lparr>subscription = handles w, events = evs\<rparr>, w7))))"
  by (auto simp: bind_def and_then_def Let_def bind_sinks_def split: prod.splits sum.splits)



text \<open>
  Other things make the order matter. A key the root rejects: \<^verbatim>\<open>bind\<close> stops at
  it, and the tables processed before it have written. With the markup key rejected,
  processing text first writes \<open>x\<close> and then fails; processing markup first
  fails with nothing written.
\<close>

lemma rejected_key_order_matters:
  "children (elems (snd (bind_sinks [KText, KHtml]
                           (HTMLElement (\<lambda>page sel. if sel = ''.a'' then Some [0] else None))
                           0 text_and_html blank_page)) 0) = Text ''x'' \<and>
   children (elems (snd (bind_sinks [KHtml, KText]
                           (HTMLElement (\<lambda>page sel. if sel = ''.a'' then Some [0] else None))
                           0 text_and_html blank_page)) 0) = Text []"
  by (simp add: bind_defs page_defs bind_sinks_def text_and_html_def
        text_handler_def set_textContent_def passes_def strict_eq_def)

text \<open>
  Markup and value on one \<^verbatim>\<open><select>\<close>: the value \<open>v\<close> is kept when the markup
  that brings the option \<open>v\<close> is written first; assigned first, while the select
  holds its old option, it selects nothing, and the markup then leaves the select at
  the default of its new options.
\<close>

lemma select_order_matters:
  "value_prop (elems (snd (bind_sinks [KHtml, KValue] (HTMLElement select_query) 0 value_and_html
                             select_page)) 0) = Some ''v'' \<and>
   value_prop (elems (snd (bind_sinks [KValue, KHtml] (HTMLElement select_query) 0 value_and_html
                             select_page)) 0) = None"
  by (simp add: bind_defs page_defs bind_sinks_def value_and_html_def select_query_def
        select_page_def select_options_def value_handler_def set_value_def passes_def strict_eq_def
        html_assign_def set_innerHTML_def)

text \<open>
  A sink that changes what a key matches: on the page of two elements, a class sink
  that gives the second element the class \<open>a\<close> makes the text key \<^verbatim>\<open>.a\<close> reach
  it when the class table is processed first, and not when the text table is.
\<close>

lemma match_order_matters:
  "children (elems (snd (bind_sinks [KClassName, KText] (HTMLElement class_query) 0 class_and_text
                           two_divs_page)) 1) = Text ''x'' \<and>
   children (elems (snd (bind_sinks [KText, KClassName] (HTMLElement class_query) 0 class_and_text
                           two_divs_page)) 1) = Text []"
  by (simp add: bind_defs page_defs bind_sinks_def class_and_text_def class_query_def
        two_divs_page_def text_handler_def set_textContent_def passes_def strict_eq_def
        className_assign_def set_className_def put_attr_def)



text \<open>No write that keeps the attributes of its element changes an attribute of the page.\<close>

lemma attrs_kept:
  assumes "\<And>el g e. (el, g) \<in> P \<Longrightarrow> attrs (g e) = attrs e"
  shows "T \<in> writes_of P \<Longrightarrow> attrs (T page el) = attrs (page el)"
proof (induction arbitrary: page rule: writes_of.induct)
  case nothing
  then show ?case by simp
next
  case (another el' g T)
  show ?case using assms [OF another.hyps(1)] another.IH by (auto simp: upd_def)
qed



end
